theory Spec2Isabelle
  imports Complex_Main
begin

section \<open>Data model of \<open>pacman_k3.py\<close>\<close>

text \<open>
  A \<open>Point\<close> of the source is the pair \<open>(y, x)\<close> of Python integers; equality and
  hashing are by value, as for pairs.  The attribute \<open>None\<close> is \<open>None\<close> of an
  option type.  The classes \<open>GameObject\<close>, \<open>Ghost\<close> and \<open>PacMan\<close> become records
  (the glyph \<open>char\<close> and \<open>frightened_time\<close>, which no game rule reads, are left out);
  the fields \<open>y, x, dy, dx\<close> carry the prefix \<open>obj_\<close>.
\<close>

type_synonym Point = "int \<times> int"

record GameObject =
  obj_y :: int
  obj_x :: int
  obj_dy :: int
  obj_dx :: int

record Ghost = GameObject +
  frightened :: bool

record PacMan = GameObject +
  next_dy :: int
  next_dx :: int

text \<open>
  The class \<open>Game\<close> without its curses handles and colour settings.  Clock readings
  (\<open>time.time()\<close>) and the tick interval are real numbers.
\<close>

record Game =
  original_map :: "string list"
  height :: int
  width :: int
  score :: int
  lives :: int
  game_over :: bool
  won :: bool
  power_mode_time :: real
  pellets_remaining :: int
  speed :: real
  level :: int
  extra_life_awarded :: bool
  fruit_spawn_time :: real
  fruit_active :: bool
  dots_eaten :: int
  fruit_triggered_70 :: bool
  fruit_triggered_170 :: bool
  pacman :: "PacMan option"
  ghosts :: "Ghost list"
  fruit :: "Point option"
  pellets :: "Point set"
  power_pills :: "Point set"
  initial_pellets :: "Point set"
  initial_power_pills :: "Point set"
  initial_fruit :: "Point option"
  warp_left :: "Point option"
  warp_right :: "Point option"
  pacman_start :: "Point option"
  ghost_starts :: "Point list"
  prev_pacman_pos :: "Point option"
  prev_ghost_positions :: "Point option list"

text \<open>The one exception the game rules can raise: an attribute access on \<open>None\<close>.\<close>

datatype error = AttributeError

text \<open>
  The random source.  One iteration of the loop of \<open>move_ghosts\<close> draws at most four
  values: \<open>random.choice\<close> for a ghost that stands still, \<open>random.random() < 0.3\<close> at
  a junction, \<open>random.choice\<close> at the junction, \<open>random.choice\<close> at a wall.  The
  draws of the iteration for ghost \<open>i\<close> are \<open>rnd i\<close>; \<open>choice\<close> picks the element
  whose index is the drawn number modulo the length.
\<close>

record ghost_rand =
  r_init :: nat
  r_coin :: bool
  r_junction :: nat
  r_wall :: nat

definition choice :: "'a list \<Rightarrow> nat \<Rightarrow> 'a" where
  "choice ds n = ds ! (n mod length ds)"

section \<open>Loading and parsing the maze\<close>

text \<open>\<open>str.rstrip(chars)\<close>: drop the trailing characters that occur in \<open>chars\<close>.\<close>

definition rstrip :: "string \<Rightarrow> string \<Rightarrow> string" where
  "rstrip s cs = rev (dropWhile (\<lambda>c. c \<in> set cs) (rev s))"

text \<open>
  \<open>load_map\<close>, lines 127-145.  The argument is what \<open>readlines()\<close> returned, or
  \<open>None\<close> when opening or reading the file raised.  The source strips with
  \<open>rstrip('\\n')\<close>, whose argument is the two characters backslash and \<open>n\<close>.
\<close>

definition load_map :: "Game \<Rightarrow> string list option \<Rightarrow> Game" where
  "load_map g src =
    (let lns = (case src of None \<Rightarrow> [] | Some ls \<Rightarrow> ls);
         rows = map (\<lambda>line. rstrip line [CHR 0x5C, CHR ''n'']) lns;
         w = fold (\<lambda>row w. if int (length row) > w then int (length row) else w) rows 0
     in g\<lparr>original_map := map (\<lambda>row. row @ replicate (nat w - length row) CHR '' '') rows,
          height := int (length rows),
          width := w\<rparr>)"

definition blank_cell :: "string list \<Rightarrow> nat \<Rightarrow> nat \<Rightarrow> string list" where
  "blank_cell m y x = m[y := (m ! y)[x := CHR '' '']]"

definition new_pacman :: "int \<Rightarrow> int \<Rightarrow> PacMan" where
  "new_pacman y x = \<lparr>obj_y = y, obj_x = x, obj_dy = 0, obj_dx = 0, next_dy = 0, next_dx = 0\<rparr>"

definition new_ghost :: "int \<Rightarrow> int \<Rightarrow> Ghost" where
  "new_ghost y x = \<lparr>obj_y = y, obj_x = x, obj_dy = 0, obj_dx = 0, frightened = False\<rparr>"

text \<open>The body of the two loops of \<open>parse_map\<close> (lines 150-173) at the cell \<open>(y, x)\<close>.\<close>

definition parse_cell :: "nat \<Rightarrow> nat \<Rightarrow> Game \<Rightarrow> Game" where
  "parse_cell y x g =
    (let ch = original_map g ! y ! x; p = (int y, int x) in
     if ch = CHR ''c'' then
       g\<lparr>pacman_start := Some p, pacman := Some (new_pacman (int y) (int x)),
         original_map := blank_cell (original_map g) y x\<rparr>
     else if ch = CHR ''n'' then
       g\<lparr>ghost_starts := ghost_starts g @ [p], ghosts := ghosts g @ [new_ghost (int y) (int x)],
         original_map := blank_cell (original_map g) y x\<rparr>
     else if ch = CHR ''@'' then
       g\<lparr>fruit := Some p, initial_fruit := Some p,
         original_map := blank_cell (original_map g) y x\<rparr>
     else if ch = CHR ''<'' then
       g\<lparr>warp_left := Some p, original_map := blank_cell (original_map g) y x\<rparr>
     else if ch = CHR ''>'' then
       g\<lparr>warp_right := Some p, original_map := blank_cell (original_map g) y x\<rparr>
     else if ch = CHR ''.'' then
       g\<lparr>pellets := insert p (pellets g), initial_pellets := insert p (initial_pellets g)\<rparr>
     else if ch = CHR ''o'' then
       g\<lparr>power_pills := insert p (power_pills g),
         initial_power_pills := insert p (initial_power_pills g)\<rparr>
     else g)"

definition parse_row :: "nat \<Rightarrow> Game \<Rightarrow> Game" where
  "parse_row y g = fold (parse_cell y) [0..<length (original_map g ! y)] g"

definition parse_map :: "Game \<Rightarrow> Game" where
  "parse_map g =
    (let g1 = fold parse_row [0..<length (original_map g)] g in
     g1\<lparr>pellets_remaining := int (card (pellets g1)) + int (card (power_pills g1)),
        prev_ghost_positions := replicate (length (ghosts g1)) None\<rparr>)"

text \<open>\<open>Game.__init__\<close>, lines 51-125: \<open>load_map\<close>, the initial values, \<open>parse_map\<close>.\<close>

definition fresh_game :: Game where
  "fresh_game =
    \<lparr>original_map = [], height = 0, width = 0, score = 0, lives = 3, game_over = False,
     won = False, power_mode_time = 0, pellets_remaining = 0, speed = 0.15, level = 1,
     extra_life_awarded = False, fruit_spawn_time = 0, fruit_active = False, dots_eaten = 0,
     fruit_triggered_70 = False, fruit_triggered_170 = False, pacman = None, ghosts = [],
     fruit = None, pellets = {}, power_pills = {}, initial_pellets = {},
     initial_power_pills = {}, initial_fruit = None, warp_left = None, warp_right = None,
     pacman_start = None, ghost_starts = [], prev_pacman_pos = None,
     prev_ghost_positions = []\<rparr>"

definition init_game :: "string list option \<Rightarrow> Game" where
  "init_game src = parse_map (load_map fresh_game src)"

section \<open>The maze queries\<close>

definition is_wall :: "Game \<Rightarrow> int \<Rightarrow> int \<Rightarrow> bool" where
  "is_wall g y x =
    (if 0 \<le> y \<and> y < height g \<and> 0 \<le> x \<and> x < width g
     then original_map g ! nat y ! nat x = CHR ''#'' else True)"

definition is_valid_move :: "Game \<Rightarrow> int \<Rightarrow> int \<Rightarrow> bool" where
  "is_valid_move g y x =
    (if 0 \<le> y \<and> y < height g \<and> 0 \<le> x \<and> x < width g
     then original_map g ! nat y ! nat x \<noteq> CHR ''#'' else False)"

definition get_valid_directions :: "Game \<Rightarrow> int \<Rightarrow> int \<Rightarrow> (int \<times> int) list" where
  "get_valid_directions g y x =
    filter (\<lambda>(dy, dx). is_valid_move g (y + dy) (x + dx)) [(-1, 0), (1, 0), (0, -1), (0, 1)]"

definition is_junction :: "Game \<Rightarrow> int \<Rightarrow> int \<Rightarrow> bool" where
  "is_junction g y x = (length (get_valid_directions g y x) > 2)"

section \<open>The player's move and the pickups\<close>

text \<open>\<open>check_extra_life\<close>, lines 442-446.\<close>

definition check_extra_life :: "Game \<Rightarrow> Game" where
  "check_extra_life g =
    (if \<not> extra_life_awarded g \<and> score g \<ge> 10000
     then g\<lparr>lives := lives g + 1, extra_life_awarded := True\<rparr> else g)"

text \<open>\<open>spawn_fruit\<close>, lines 479-483; \<open>t\<close> is the clock reading.\<close>

definition spawn_fruit :: "Game \<Rightarrow> real \<Rightarrow> Game" where
  "spawn_fruit g t =
    (if initial_fruit g \<noteq> None then g\<lparr>fruit_active := True, fruit_spawn_time := t\<rparr> else g)"

text \<open>\<open>update_fruit\<close>, lines 485-488.\<close>

definition update_fruit :: "Game \<Rightarrow> real \<Rightarrow> Game" where
  "update_fruit g t =
    (if fruit_active g \<and> t - fruit_spawn_time g > 10 then g\<lparr>fruit_active := False\<rparr> else g)"

text \<open>The fruit spawn triggers, lines 402-407 and again 421-426.\<close>

definition fruit_triggers :: "Game \<Rightarrow> real \<Rightarrow> Game" where
  "fruit_triggers g t =
    (if dots_eaten g = 70 \<and> \<not> fruit_triggered_70 g
     then (spawn_fruit g t)\<lparr>fruit_triggered_70 := True\<rparr>
     else if dots_eaten g = 170 \<and> \<not> fruit_triggered_170 g
     then (spawn_fruit g t)\<lparr>fruit_triggered_170 := True\<rparr>
     else g)"

text \<open>Lines 391-407: the pellet at \<open>pos\<close>.\<close>

definition eat_pellet :: "Game \<Rightarrow> Point \<Rightarrow> real \<Rightarrow> Game" where
  "eat_pellet g pos t =
    (if pos \<in> pellets g then
       fruit_triggers
         (check_extra_life
           (g\<lparr>pellets := pellets g - {pos}, score := score g + 10,
              pellets_remaining := pellets_remaining g - 1, dots_eaten := dots_eaten g + 1\<rparr>)) t
     else g)"

text \<open>Lines 410-430: the power pill at \<open>pos\<close>.\<close>

definition eat_power_pill :: "Game \<Rightarrow> Point \<Rightarrow> real \<Rightarrow> Game" where
  "eat_power_pill g pos t =
    (if pos \<in> power_pills g then
       (let g1 = fruit_triggers
                  (check_extra_life
                    (g\<lparr>power_pills := power_pills g - {pos}, score := score g + 50,
                       pellets_remaining := pellets_remaining g - 1,
                       dots_eaten := dots_eaten g + 1\<rparr>)) t
        in g1\<lparr>power_mode_time := t,
              ghosts := map (\<lambda>ghost. ghost\<lparr>frightened := True\<rparr>) (ghosts g1)\<rparr>)
     else g)"

text \<open>Lines 433-436: the fruit.\<close>

definition eat_fruit :: "Game \<Rightarrow> Point \<Rightarrow> Game" where
  "eat_fruit g pos =
    (if fruit g \<noteq> None \<and> fruit_active g \<and> fruit g = Some pos
     then check_extra_life (g\<lparr>score := score g + 100, fruit_active := False\<rparr>) else g)"

text \<open>Lines 439-440: the win condition.\<close>

definition check_win :: "Game \<Rightarrow> Game" where
  "check_win g = (if pellets_remaining g = 0 then g\<lparr>won := True\<rparr> else g)"

text \<open>
  Lines 386-440, the part of \<open>move_pacman\<close> after the movement: \<open>p\<close> is the player
  as moved, \<open>old\<close> its position at the start of the call.
\<close>

definition collect :: "Game \<Rightarrow> PacMan \<Rightarrow> Point \<Rightarrow> real \<Rightarrow> Game" where
  "collect g p old t =
    (let pos = (obj_y p, obj_x p);
         g1 = g\<lparr>pacman := Some p, prev_pacman_pos := Some old\<rparr>
     in check_win (eat_fruit (eat_power_pill (eat_pellet g1 pos t) pos t) pos))"

text \<open>Lines 344-352: adopt the buffered direction when the step is legal.\<close>

definition try_turn :: "Game \<Rightarrow> PacMan \<Rightarrow> PacMan" where
  "try_turn g p =
    (if next_dy p \<noteq> 0 \<or> next_dx p \<noteq> 0 then
       (if is_valid_move g (obj_y p + next_dy p) (obj_x p + next_dx p)
        then p\<lparr>obj_dy := next_dy p, obj_dx := next_dx p, next_dy := 0, next_dx := 0\<rparr>
        else p)
     else p)"

text \<open>
  The tunnel test shared by lines 361-375 and 543-569: the endpoint an object at
  \<open>(y, x)\<close> with horizontal velocity \<open>dx\<close> is warped to, if any.
\<close>

definition warp_target :: "Game \<Rightarrow> int \<Rightarrow> int \<Rightarrow> int \<Rightarrow> Point option" where
  "warp_target g y x dx =
    (case (warp_left g, warp_right g) of
       (Some wl, Some wr) \<Rightarrow>
         if (y, x) = wl \<and> dx < 0 then Some wr
         else if (y, x) = wr \<and> dx > 0 then Some wl
         else None
     | _ \<Rightarrow> None)"

text \<open>
  \<open>move_pacman\<close>, lines 335-440.  After a warp the source returns at once (lines 368
  and 375), before the pickups.
\<close>

definition move_pacman :: "Game \<Rightarrow> real \<Rightarrow> Game" where
  "move_pacman g t =
    (case pacman g of
       None \<Rightarrow> g
     | Some p0 \<Rightarrow>
        (let old = (obj_y p0, obj_x p0); p = try_turn g p0 in
         if obj_dy p \<noteq> 0 \<or> obj_dx p \<noteq> 0 then
           (case warp_target g (obj_y p) (obj_x p) (obj_dx p) of
              Some w \<Rightarrow>
                g\<lparr>pacman := Some (p\<lparr>obj_y := fst w, obj_x := snd w\<rparr>),
                  prev_pacman_pos := Some old\<rparr>
            | None \<Rightarrow>
                if is_valid_move g (obj_y p + obj_dy p) (obj_x p + obj_dx p)
                then collect g (p\<lparr>obj_y := obj_y p + obj_dy p, obj_x := obj_x p + obj_dx p\<rparr>) old t
                else collect g (p\<lparr>obj_dy := 0, obj_dx := 0\<rparr>) old t)
         else collect g p old t))"

section \<open>Resets and level advance\<close>

text \<open>
  \<open>reset_positions\<close>, lines 651-678.  Line 660 reads \<open>self.pacman.dy\<close> without a
  test, so the call raises when there is no player.
\<close>

definition reset_positions :: "Game \<Rightarrow> error + Game" where
  "reset_positions g =
    (case pacman g of
       None \<Rightarrow> Inl AttributeError
     | Some p \<Rightarrow>
        (let p1 = (case pacman_start g of
                     Some s \<Rightarrow> p\<lparr>obj_y := fst s, obj_x := snd s\<rparr>
                   | None \<Rightarrow> p);
             prev_p = (case pacman_start g of
                         Some s \<Rightarrow> Some (obj_y p, obj_x p)
                       | None \<Rightarrow> prev_pacman_pos g)
         in Inr (g\<lparr>pacman := Some (p1\<lparr>obj_dy := 0, obj_dx := 0, next_dy := 0, next_dx := 0\<rparr>),
                  prev_pacman_pos := prev_p,
                  prev_ghost_positions :=
                    fold (\<lambda>(i, ghost) prev.
                            if i < length prev then prev[i := Some (obj_y ghost, obj_x ghost)]
                            else prev)
                         (enumerate 0 (ghosts g)) (prev_ghost_positions g),
                  ghosts :=
                    map (\<lambda>(i, ghost).
                           (if i < length (ghost_starts g)
                            then ghost\<lparr>obj_y := fst (ghost_starts g ! i),
                                       obj_x := snd (ghost_starts g ! i)\<rparr>
                            else ghost)\<lparr>obj_dy := 0, obj_dx := 0, frightened := False\<rparr>)
                        (enumerate 0 (ghosts g)),
                  power_mode_time := 0\<rparr>)))"

text \<open>\<open>next_level\<close>, lines 448-477.\<close>

definition next_level :: "Game \<Rightarrow> error + Game" where
  "next_level g =
    (let g1 = g\<lparr>level := level g + 1, won := False, power_mode_time := 0,
                fruit_spawn_time := 0, fruit_active := False, dots_eaten := 0,
                fruit_triggered_70 := False, fruit_triggered_170 := False,
                pellets := initial_pellets g, power_pills := initial_power_pills g,
                pellets_remaining :=
                  int (card (initial_pellets g)) + int (card (initial_power_pills g)),
                fruit := (case initial_fruit g of Some f \<Rightarrow> Some f | None \<Rightarrow> fruit g)\<rparr>
     in case reset_positions g1 of
          Inl e \<Rightarrow> Inl e
        | Inr g2 \<Rightarrow> Inr (g2\<lparr>speed := max 0.08 (speed g2 - 0.01)\<rparr>))"

text \<open>\<open>reset_game\<close>, lines 680-714.\<close>

definition reset_game :: "Game \<Rightarrow> error + Game" where
  "reset_game g =
    reset_positions
      (g\<lparr>score := 0, lives := 3, game_over := False, won := False, power_mode_time := 0,
         level := 1, extra_life_awarded := False,
         fruit_spawn_time := 0, fruit_active := False, dots_eaten := 0,
         fruit_triggered_70 := False, fruit_triggered_170 := False,
         pellets := initial_pellets g, power_pills := initial_power_pills g,
         pellets_remaining :=
           int (card (initial_pellets g)) + int (card (initial_power_pills g)),
         fruit := (case initial_fruit g of Some f \<Rightarrow> Some f | None \<Rightarrow> fruit g),
         speed := 0.15, prev_pacman_pos := None,
         prev_ghost_positions := replicate (length (ghosts g)) None\<rparr>)"

section \<open>Collisions\<close>

text \<open>\<open>check_ghost_collision_with_crossing\<close>, lines 601-620.\<close>

definition check_ghost_collision_with_crossing :: "Game \<Rightarrow> Ghost \<Rightarrow> int \<Rightarrow> int \<Rightarrow> bool" where
  "check_ghost_collision_with_crossing g ghost old_ghost_y old_ghost_x =
    (case pacman g of
       None \<Rightarrow> False
     | Some p \<Rightarrow>
        if obj_y ghost = obj_y p \<and> obj_x ghost = obj_x p then True
        else
          (let pacman_old_y = obj_y p - obj_dy p; pacman_old_x = obj_x p - obj_dx p in
           if pacman_old_y = obj_y ghost \<and> pacman_old_x = obj_x ghost \<and>
              old_ghost_y = obj_y p \<and> old_ghost_x = obj_x p
           then True else False))"

text \<open>
  \<open>handle_collision\<close>, lines 622-649.  The source is handed the ghost object and looks
  its index up in \<open>self.ghosts\<close>; the ghosts are distinct objects compared by identity,
  so the index found is that of the ghost, and the model is handed the index \<open>i\<close>.
\<close>

definition handle_collision :: "Game \<Rightarrow> nat \<Rightarrow> error + Game" where
  "handle_collision g i =
    (let ghost = ghosts g ! i in
     if frightened ghost then
       (let g1 = g\<lparr>score := score g + 200\<rparr>;
            g2 = (if i < length (ghost_starts g1) then
                    (if i < length (prev_ghost_positions g1)
                     then g1\<lparr>prev_ghost_positions :=
                               (prev_ghost_positions g1)[i := Some (obj_y ghost, obj_x ghost)]\<rparr>
                     else g1)
                    \<lparr>ghosts := (ghosts g1)[i := ghost\<lparr>obj_y := fst (ghost_starts g1 ! i),
                                                     obj_x := snd (ghost_starts g1 ! i)\<rparr>]\<rparr>
                  else g1)
        in Inr (g2\<lparr>ghosts := (ghosts g2)[i := (ghosts g2 ! i)\<lparr>frightened := False,
                                                              obj_dy := 0, obj_dx := 0\<rparr>]\<rparr>))
     else if lives g > 0 then
       (let g1 = g\<lparr>lives := lives g - 1\<rparr> in
        if lives g1 \<le> 0 then Inr (g1\<lparr>game_over := True\<rparr>) else reset_positions g1)
     else Inr g)"

text \<open>\<open>check_collisions\<close>, lines 591-599: the first ghost on the player's cell.\<close>

fun check_collisions_loop :: "nat list \<Rightarrow> Game \<Rightarrow> PacMan \<Rightarrow> error + Game" where
  "check_collisions_loop [] g p = Inr g"
| "check_collisions_loop (i # is) g p =
    (if obj_y (ghosts g ! i) = obj_y p \<and> obj_x (ghosts g ! i) = obj_x p
     then handle_collision g i
     else check_collisions_loop is g p)"

definition check_collisions :: "Game \<Rightarrow> error + Game" where
  "check_collisions g =
    (case pacman g of
       None \<Rightarrow> Inr g
     | Some p \<Rightarrow> check_collisions_loop [0..<length (ghosts g)] g p)"

section \<open>The adversaries' moves\<close>

text \<open>\<open>if directions: ghost.dy, ghost.dx = random.choice(directions)\<close>.\<close>

definition pick_direction :: "Ghost \<Rightarrow> (int \<times> int) list \<Rightarrow> nat \<Rightarrow> Ghost" where
  "pick_direction ghost ds n =
    (if ds \<noteq> [] then ghost\<lparr>obj_dy := fst (choice ds n), obj_dx := snd (choice ds n)\<rparr>
     else ghost)"

text \<open>\<open>if len(self.prev_ghost_positions) > i: self.prev_ghost_positions[i] = Point(..)\<close>.\<close>

definition set_prev_ghost :: "Game \<Rightarrow> nat \<Rightarrow> Point \<Rightarrow> Game" where
  "set_prev_ghost g i old =
    (if length (prev_ghost_positions g) > i
     then g\<lparr>prev_ghost_positions := (prev_ghost_positions g)[i := Some old]\<rparr> else g)"

text \<open>Lines 519-535: the direction of ghost \<open>i\<close> after the random choices.\<close>

definition choose_direction :: "Game \<Rightarrow> Ghost \<Rightarrow> ghost_rand \<Rightarrow> Ghost" where
  "choose_direction g ghost r =
    (let gh1 = (if obj_dy ghost = 0 \<and> obj_dx ghost = 0
                then pick_direction ghost (get_valid_directions g (obj_y ghost) (obj_x ghost))
                       (r_init r)
                else ghost)
     in if is_junction g (obj_y gh1) (obj_x gh1) \<and> r_coin r then
          (let directions = get_valid_directions g (obj_y gh1) (obj_x gh1) in
           if directions \<noteq> [] then
             pick_direction gh1
               (filter (\<lambda>d. d \<noteq> (- obj_dy gh1, - obj_dx gh1)) directions) (r_junction r)
           else gh1)
        else gh1)"

text \<open>
  One iteration of the loop of \<open>move_ghosts\<close>, lines 513-589, for the ghost of index
  \<open>i\<close>.  The Boolean of the result says that the source executed \<open>return\<close> (lines 555,
  568, 580), which it does when \<open>game_over\<close> holds after \<open>handle_collision\<close>.
\<close>

definition move_ghost :: "nat \<Rightarrow> ghost_rand \<Rightarrow> Game \<Rightarrow> error + (Game \<times> bool)" where
  "move_ghost i r g =
    (let ghost0 = ghosts g ! i;
         old_ghost_y = obj_y ghost0; old_ghost_x = obj_x ghost0;
         ghost = choose_direction g ghost0 r;
         new_y = obj_y ghost + obj_dy ghost; new_x = obj_x ghost + obj_dx ghost
     in case warp_target g (obj_y ghost) (obj_x ghost) (obj_dx ghost) of
          Some w \<Rightarrow>
            (let g1 = set_prev_ghost
                        (g\<lparr>ghosts := (ghosts g)[i := ghost\<lparr>obj_y := fst w, obj_x := snd w\<rparr>]\<rparr>)
                        i (old_ghost_y, old_ghost_x)
             in if check_ghost_collision_with_crossing g1 (ghosts g1 ! i) old_ghost_y old_ghost_x
                then (case handle_collision g1 i of
                        Inl e \<Rightarrow> Inl e
                      | Inr g2 \<Rightarrow> Inr (g2, game_over g2))
                else Inr (g1, False))
        | None \<Rightarrow>
            if is_valid_move g new_y new_x then
              (let g1 = g\<lparr>ghosts := (ghosts g)[i := ghost\<lparr>obj_y := new_y, obj_x := new_x\<rparr>]\<rparr>
               in if check_ghost_collision_with_crossing g1 (ghosts g1 ! i) old_ghost_y old_ghost_x
                  then (case handle_collision g1 i of
                          Inl e \<Rightarrow> Inl e
                        | Inr g2 \<Rightarrow>
                            if game_over g2 then Inr (g2, True)
                            else Inr (set_prev_ghost g2 i (old_ghost_y, old_ghost_x), False))
                  else Inr (set_prev_ghost g1 i (old_ghost_y, old_ghost_x), False))
            else
              Inr (set_prev_ghost
                     (g\<lparr>ghosts := (ghosts g)[i := pick_direction ghost
                           (get_valid_directions g (obj_y ghost) (obj_x ghost)) (r_wall r)]\<rparr>)
                     i (old_ghost_y, old_ghost_x), False))"

fun move_ghosts_loop :: "(nat \<Rightarrow> ghost_rand) \<Rightarrow> nat list \<Rightarrow> Game \<Rightarrow> error + Game" where
  "move_ghosts_loop rnd [] g = Inr g"
| "move_ghosts_loop rnd (i # is) g =
    (case move_ghost i (rnd i) g of
       Inl e \<Rightarrow> Inl e
     | Inr (g1, returned) \<Rightarrow> if returned then Inr g1 else move_ghosts_loop rnd is g1)"

text \<open>Lines 504-508: the end of the power mode.\<close>

definition expire_power_mode :: "Game \<Rightarrow> real \<Rightarrow> Game" where
  "expire_power_mode g t =
    (if power_mode_time g > 0 \<and> t - power_mode_time g > 6
     then g\<lparr>power_mode_time := 0,
            ghosts := map (\<lambda>ghost. ghost\<lparr>frightened := False\<rparr>) (ghosts g)\<rparr>
     else g)"

text \<open>\<open>move_ghosts\<close>, lines 501-589.\<close>

definition move_ghosts :: "Game \<Rightarrow> real \<Rightarrow> (nat \<Rightarrow> ghost_rand) \<Rightarrow> error + Game" where
  "move_ghosts g t rnd =
    (let g1 = update_fruit (expire_power_mode g t) t
     in move_ghosts_loop rnd [0..<length (ghosts g1)] g1)"

section \<open>The game loop\<close>

text \<open>
  The keys \<open>run\<close> tells apart (lines 742-764); every other value of \<open>getch\<close>,
  also \<open>-1\<close> for no key, is \<open>KeyOther\<close>.
\<close>

datatype key = KeyQuit | KeyReset | KeySpace | KeyUp | KeyDown | KeyLeft | KeyRight | KeyOther

definition set_intent :: "Game \<Rightarrow> int \<Rightarrow> int \<Rightarrow> error + Game" where
  "set_intent g dy dx =
    (case pacman g of
       None \<Rightarrow> Inl AttributeError
     | Some p \<Rightarrow> Inr (g\<lparr>pacman := Some (p\<lparr>next_dy := dy, next_dx := dx\<rparr>)\<rparr>))"

text \<open>Lines 744-764, the keys other than quit.\<close>

fun handle_key :: "Game \<Rightarrow> key \<Rightarrow> error + Game" where
  "handle_key g KeyQuit = Inr g"
| "handle_key g KeyReset = (if game_over g \<or> won g then reset_game g else Inr g)"
| "handle_key g KeySpace = (if won g then next_level g else Inr g)"
| "handle_key g k =
    (if \<not> game_over g \<and> \<not> won g then
       (case k of
          KeyUp \<Rightarrow> set_intent g (-1) 0
        | KeyDown \<Rightarrow> set_intent g 1 0
        | KeyLeft \<Rightarrow> set_intent g 0 (-1)
        | KeyRight \<Rightarrow> set_intent g 0 1
        | _ \<Rightarrow> Inr g)
     else Inr g)"

text \<open>Lines 769-772: one tick.\<close>

definition update_game :: "Game \<Rightarrow> real \<Rightarrow> (nat \<Rightarrow> ghost_rand) \<Rightarrow> error + Game" where
  "update_game g t rnd =
    (case move_ghosts (move_pacman g t) t rnd of
       Inl e \<Rightarrow> Inl e
     | Inr g1 \<Rightarrow> check_collisions g1)"

text \<open>
  One iteration of the loop of \<open>run\<close>, lines 733-775, without the drawing: the state
  and \<open>last_move_time\<close> after it, or \<open>None\<close> when the loop was left.  All clock
  readings of the iteration are \<open>now\<close>.
\<close>

definition run_iter ::
  "Game \<Rightarrow> real \<Rightarrow> key \<Rightarrow> real \<Rightarrow> (nat \<Rightarrow> ghost_rand) \<Rightarrow> error + (Game \<times> real) option" where
  "run_iter g last_move_time k now rnd =
    (if k = KeyQuit then Inr None
     else case handle_key g k of
            Inl e \<Rightarrow> Inl e
          | Inr g1 \<Rightarrow>
             (let last1 = (if (k = KeyReset \<and> (game_over g \<or> won g)) \<or> (k = KeySpace \<and> won g)
                           then now else last_move_time)
              in if \<not> game_over g1 \<and> \<not> won g1 \<and> now - last1 \<ge> speed g1 then
                   (case update_game g1 now rnd of
                      Inl e \<Rightarrow> Inl e
                    | Inr g2 \<Rightarrow> Inr (Some (g2, now)))
                 else Inr (Some (g1, last1))))"

text \<open>
  The states of a run: the state after \<open>__init__\<close>, and every state reached from one
  by a key or, when the game is neither over nor won, by a tick.
\<close>

inductive reachable :: "Game \<Rightarrow> bool" where
  init: "reachable (init_game src)"
| key: "reachable g \<Longrightarrow> handle_key g k = Inr g' \<Longrightarrow> reachable g'"
| tick: "reachable g \<Longrightarrow> \<not> game_over g \<Longrightarrow> \<not> won g \<Longrightarrow> update_game g t rnd = Inr g'
         \<Longrightarrow> reachable g'"

section \<open>Concrete games\<close>

text \<open>A random source whose every draw is \<open>0\<close> and whose junction coin says no.\<close>

definition rnd0 :: "nat \<Rightarrow> ghost_rand" where
  "rnd0 = (\<lambda>i. \<lparr>r_init = 0, r_coin = False, r_junction = 0, r_wall = 0\<rparr>)"

text \<open>Two frightened ghosts in a corridor.\<close>

definition eaten_example :: Game where
  "eaten_example =
    (init_game (Some [''#######'', ''#c.nn #'', ''#######'']))
      \<lparr>ghosts := [\<lparr>obj_y = 1, obj_x = 3, obj_dy = 0, obj_dx = 0, frightened = True\<rparr>,
                  \<lparr>obj_y = 1, obj_x = 4, obj_dy = 0, obj_dx = 0, frightened = True\<rparr>]\<rparr>"

text \<open>
  A score of 9900, no extra life awarded yet, the player about to step right and a
  frightened ghost two cells to its right.
\<close>

definition threshold_example :: Game where
  "threshold_example =
    (init_game (Some [''#####'', ''#c n#'', ''#####'']))
      \<lparr>score := 9900, power_mode_time := 100,
       pacman := Some \<lparr>obj_y = 1, obj_x = 1, obj_dy = 0, obj_dx = 0, next_dy = 0, next_dx = 1\<rparr>,
       ghosts := [\<lparr>obj_y = 1, obj_x = 3, obj_dy = 0, obj_dx = 0, frightened = True\<rparr>]\<rparr>"

text \<open>
  The player about to step right, a ghost two cells to its right and a second ghost
  further on, all in one corridor.
\<close>

definition hit_example :: Game where
  "hit_example =
    (init_game (Some [''########'', ''#c n .n#'', ''########'']))
      \<lparr>pacman := Some \<lparr>obj_y = 1, obj_x = 1, obj_dy = 0, obj_dx = 0, next_dy = 0, next_dx = 1\<rparr>\<rparr>"

section \<open>Invariants of a run\<close>

text \<open>
  The character of the maze at a position, \<open>None\<close> outside the maze.  A well-formed
  world has rows of one width, pellets on cells that read \<open>.\<close>, power pills on cells
  that read \<open>o\<close>, and the fruit home, the tunnel endpoints and the recorded starts on
  cells that were blanked by \<open>parse_map\<close>.
\<close>

definition cell_of :: "string list \<Rightarrow> int \<Rightarrow> int \<Rightarrow> Point \<Rightarrow> char option" where
  "cell_of m h w p =
    (if 0 \<le> fst p \<and> fst p < h \<and> 0 \<le> snd p \<and> snd p < w
     then Some (m ! nat (fst p) ! nat (snd p)) else None)"

definition cell :: "Game \<Rightarrow> Point \<Rightarrow> char option" where
  "cell g p = cell_of (original_map g) (height g) (width g) p"

definition map_ok :: "Game \<Rightarrow> bool" where
  "map_ok g \<longleftrightarrow> height g = int (length (original_map g)) \<and>
     (\<forall>row \<in> set (original_map g). int (length row) = width g)"

definition world_ok :: "Game \<Rightarrow> bool" where
  "world_ok g \<longleftrightarrow> map_ok g \<and>
     (\<forall>p \<in> initial_pellets g. cell g p = Some CHR ''.'') \<and>
     (\<forall>p \<in> initial_power_pills g. cell g p = Some CHR ''o'') \<and>
     (\<forall>p. initial_fruit g = Some p \<longrightarrow> cell g p = Some CHR '' '') \<and>
     (\<forall>p. warp_left g = Some p \<longrightarrow> cell g p = Some CHR '' '') \<and>
     (\<forall>p. warp_right g = Some p \<longrightarrow> cell g p = Some CHR '' '') \<and>
     (\<forall>p. pacman_start g = Some p \<longrightarrow> cell g p = Some CHR '' '') \<and>
     (\<forall>p \<in> set (ghost_starts g). cell g p = Some CHR '' '')"

text \<open>What holds between the cells of \<open>parse_map\<close>.\<close>

definition parsed_ok :: "Game \<Rightarrow> bool" where
  "parsed_ok g \<longleftrightarrow> world_ok g \<and>
     pellets g = initial_pellets g \<and> power_pills g = initial_power_pills g \<and>
     fruit g = initial_fruit g \<and>
     pacman_start g = map_option (\<lambda>p. (obj_y p, obj_x p)) (pacman g) \<and>
     ghost_starts g = map (\<lambda>gh. (obj_y gh, obj_x gh)) (ghosts g)"

text \<open>The fields that nothing changes after \<open>__init__\<close>.\<close>

definition static ::
  "Game \<Rightarrow> string list \<times> int \<times> int \<times> Point set \<times> Point set \<times> Point option \<times>
     Point option \<times> Point option \<times> Point option \<times> Point list" where
  "static g = (original_map g, height g, width g, initial_pellets g, initial_power_pills g,
     initial_fruit g, warp_left g, warp_right g, pacman_start g, ghost_starts g)"

text \<open>
  The collectibles are among the initial ones and counted by \<open>pellets_remaining\<close>;
  the player and the ghosts stand on cells that are not walls; a game that is over had
  a player, and a game that is not over has a life left.
\<close>

definition coll_ok :: "Game \<Rightarrow> bool" where
  "coll_ok g \<longleftrightarrow> finite (initial_pellets g) \<and> finite (initial_power_pills g) \<and>
     pellets g \<subseteq> initial_pellets g \<and> power_pills g \<subseteq> initial_power_pills g \<and>
     pellets_remaining g = int (card (pellets g)) + int (card (power_pills g)) \<and>
     fruit g = initial_fruit g"

definition pos_ok :: "Game \<Rightarrow> bool" where
  "pos_ok g \<longleftrightarrow>
     (\<forall>p. pacman g = Some p \<longrightarrow> is_valid_move g (obj_y p) (obj_x p)) \<and>
     (\<forall>ghost \<in> set (ghosts g). is_valid_move g (obj_y ghost) (obj_x ghost)) \<and>
     length (ghost_starts g) = length (ghosts g) \<and>
     (pacman g = None \<longleftrightarrow> pacman_start g = None)"

definition alive_ok :: "Game \<Rightarrow> bool" where
  "alive_ok g \<longleftrightarrow> (game_over g \<longrightarrow> pacman g \<noteq> None) \<and> (game_over g \<or> 1 \<le> lives g)"

definition ghost_inv :: "Game \<Rightarrow> bool" where
  "ghost_inv g \<longleftrightarrow> world_ok g \<and> pos_ok g \<and> alive_ok g"

definition rest_ok :: "Game \<Rightarrow> bool" where
  "rest_ok g \<longleftrightarrow> coll_ok g \<and> (won g \<longrightarrow> pacman g \<noteq> None) \<and>
     (fruit_triggered_70 g \<longrightarrow> 70 \<le> dots_eaten g) \<and>
     (fruit_triggered_170 g \<longrightarrow> 170 \<le> dots_eaten g) \<and> 0.08 \<le> speed g"

definition game_inv :: "Game \<Rightarrow> bool" where
  "game_inv g \<longleftrightarrow> ghost_inv g \<and> rest_ok g"

text \<open>What the ghosts' moves and the collisions leave as it is.\<close>

definition kept where
  "kept g = (static g, pellets g, power_pills g, pellets_remaining g, fruit g, dots_eaten g,
     fruit_triggered_70 g, fruit_triggered_170 g, speed g, won g, level g,
     extra_life_awarded g)"

text \<open>What the pickups leave as it is.\<close>

definition pickup_frame :: "Game \<Rightarrow> Game \<Rightarrow> bool" where
  "pickup_frame g g' \<longleftrightarrow> static g' = static g \<and> pacman g' = pacman g \<and>
     map (\<lambda>ghost. (obj_y ghost, obj_x ghost)) (ghosts g') =
       map (\<lambda>ghost. (obj_y ghost, obj_x ghost)) (ghosts g) \<and>
     game_over g' = game_over g \<and> lives g \<le> lives g' \<and> speed g' = speed g \<and>
     level g' = level g"

definition ghost_frame :: "Game \<Rightarrow> Game \<Rightarrow> bool" where
  "ghost_frame g g' \<longleftrightarrow> kept g' = kept g \<and> length (ghosts g') = length (ghosts g) \<and>
     (pacman g' = None) = (pacman g = None)"

text \<open>Fields that \<open>parse_map\<close> does not touch.\<close>

definition scalars where
  "scalars g = (lives g, game_over g, won g, speed g, fruit_triggered_70 g,
     fruit_triggered_170 g, dots_eaten g, score g, level g, extra_life_awarded g,
     fruit_active g)"

section \<open>Evaluation of concrete games\<close>

lemmas eval_defs =
  init_game_def load_map_def rstrip_def fresh_game_def parse_map_def parse_row_def
  parse_cell_def blank_cell_def new_pacman_def new_ghost_def upt_rec Let_def
  update_game_def move_pacman_def try_turn_def is_valid_move_def warp_target_def collect_def
  eat_pellet_def eat_power_pill_def eat_fruit_def check_win_def check_extra_life_def
  fruit_triggers_def spawn_fruit_def move_ghosts_def expire_power_mode_def update_fruit_def
  move_ghost_def choose_direction_def pick_direction_def get_valid_directions_def
  is_junction_def choice_def check_ghost_collision_with_crossing_def handle_collision_def
  reset_positions_def set_prev_ghost_def check_collisions_def rnd0_def enumerate_eq_zip
  set_intent_def

section \<open>Eating a frightened ghost\<close>

lemma frightened_choose_direction:
  "frightened (choose_direction g ghost r) = frightened ghost"
  by (simp add: choose_direction_def pick_direction_def Let_def)

lemma frightened_pick_direction:
  "frightened (pick_direction ghost ds n) = frightened ghost"
  by (simp add: pick_direction_def)

lemma ghost_reset_eq:
  "(gh::Ghost)\<lparr>obj_y := a, obj_x := b, frightened := False, obj_dy := 0, obj_dx := 0\<rparr> =
   \<lparr>obj_y = a, obj_x = b, obj_dy = 0, obj_dx = 0, frightened = False\<rparr>"
  by (cases gh) simp

lemma handle_collision_frightened:
  assumes "i < length (ghosts g)" "frightened (ghosts g ! i)"
  shows "handle_collision g i =
    Inr (g\<lparr>score := score g + 200,
           prev_ghost_positions :=
             (if i < length (ghost_starts g) \<and> i < length (prev_ghost_positions g)
              then (prev_ghost_positions g)[i := Some (obj_y (ghosts g ! i), obj_x (ghosts g ! i))]
              else prev_ghost_positions g),
           ghosts := (ghosts g)[i :=
              (if i < length (ghost_starts g)
               then (ghosts g ! i)\<lparr>obj_y := fst (ghost_starts g ! i),
                                    obj_x := snd (ghost_starts g ! i)\<rparr>
               else ghosts g ! i)\<lparr>frightened := False, obj_dy := 0, obj_dx := 0\<rparr>]\<rparr>)"
  using assms by (simp add: handle_collision_def Let_def)

lemma set_prev_ghost_fields:
  "ghosts (set_prev_ghost g i old) = ghosts g"
  "game_over (set_prev_ghost g i old) = game_over g"
  "pacman (set_prev_ghost g i old) = pacman g"
  "ghost_starts (set_prev_ghost g i old) = ghost_starts g"
  by (simp_all add: set_prev_ghost_def)

lemma eaten_ghost_does_not_return:
  assumes "i < length (ghosts g)" "frightened (ghosts g ! i)" "\<not> game_over g"
    and "move_ghost i r g = Inr (g2, returned)"
  shows "\<not> returned"
  using assms
  by (auto simp: move_ghost_def Let_def handle_collision_frightened frightened_choose_direction
      set_prev_ghost_fields frightened_pick_direction
      split: option.splits if_splits sum.splits)

text \<open>
  C5.  A collision resolved against a frightened ghost, the ghost of index \<open>i\<close> with a
  recorded start: \<open>handle_collision\<close> raises nothing; the score grows by 200; the
  ghost is back on its start with velocity zero and not frightened; the state differs
  from the one before in the score, that ghost and the redraw positions only, so the
  lives, the player, \<open>game_over\<close> and every other ghost are as before; and when the
  game is not over, the iteration of \<open>move_ghosts\<close> for that ghost never executes
  \<open>return\<close>, so the ghosts after it are still moved.
\<close>

theorem eaten_ghost_collision:
  assumes "i < length (ghosts g)" and "i < length (ghost_starts g)"
    and "frightened (ghosts g ! i)"
  shows "\<exists>g'. handle_collision g i = Inr g' \<and>
      g' = g\<lparr>score := score g + 200,
             prev_ghost_positions := prev_ghost_positions g',
             ghosts := (ghosts g)[i := \<lparr>obj_y = fst (ghost_starts g ! i),
               obj_x = snd (ghost_starts g ! i), obj_dy = 0, obj_dx = 0, frightened = False\<rparr>]\<rparr> \<and>
      score g' = score g + 200 \<and> lives g' = lives g \<and> game_over g' = game_over g \<and>
      pacman g' = pacman g \<and>
      ghosts g' ! i = \<lparr>obj_y = fst (ghost_starts g ! i), obj_x = snd (ghost_starts g ! i),
                        obj_dy = 0, obj_dx = 0, frightened = False\<rparr> \<and>
      (\<forall>j. j \<noteq> i \<longrightarrow> ghosts g' ! j = ghosts g ! j) \<and>
      (\<forall>r g2 returned. \<not> game_over g \<longrightarrow> move_ghost i r g = Inr (g2, returned) \<longrightarrow> \<not> returned)"
proof -
  let ?g' = "g\<lparr>score := score g + 200,
           prev_ghost_positions :=
             (if i < length (ghost_starts g) \<and> i < length (prev_ghost_positions g)
              then (prev_ghost_positions g)[i := Some (obj_y (ghosts g ! i), obj_x (ghosts g ! i))]
              else prev_ghost_positions g),
           ghosts := (ghosts g)[i :=
              (if i < length (ghost_starts g)
               then (ghosts g ! i)\<lparr>obj_y := fst (ghost_starts g ! i),
                                    obj_x := snd (ghost_starts g ! i)\<rparr>
               else ghosts g ! i)\<lparr>frightened := False, obj_dy := 0, obj_dx := 0\<rparr>]\<rparr>"
  have h: "handle_collision g i = Inr ?g'"
    using assms(1,3) by (rule handle_collision_frightened)
  have gi: "ghosts ?g' ! i = \<lparr>obj_y = fst (ghost_starts g ! i), obj_x = snd (ghost_starts g ! i),
                        obj_dy = 0, obj_dx = 0, frightened = False\<rparr>"
    using assms(1,2) by (simp add: ghost_reset_eq)
  have others: "\<forall>j. j \<noteq> i \<longrightarrow> ghosts ?g' ! j = ghosts g ! j"
    by simp
  have loop: "\<forall>r g2 returned. \<not> game_over g \<longrightarrow> move_ghost i r g = Inr (g2, returned)
      \<longrightarrow> \<not> returned"
    using eaten_ghost_does_not_return [OF assms(1) assms(3)] by blast
  have frame: "?g' = g\<lparr>score := score g + 200,
             prev_ghost_positions := prev_ghost_positions ?g',
             ghosts := (ghosts g)[i := \<lparr>obj_y = fst (ghost_starts g ! i),
               obj_x = snd (ghost_starts g ! i), obj_dy = 0, obj_dx = 0, frightened = False\<rparr>]\<rparr>"
    using assms(1,2) by (simp add: ghost_reset_eq)
  show ?thesis
    apply (rule exI [of _ ?g'])
    apply (intro conjI)
            apply (rule h)
           apply (rule frame)
          apply simp
         apply simp
        apply simp
       apply simp
      apply (rule gi)
     apply (rule others)
    apply (rule loop)
    done
qed

theorem eaten_ghost_collision_witness:
  "0 < length (ghosts eaten_example) \<and> 0 < length (ghost_starts eaten_example) \<and>
   frightened (ghosts eaten_example ! 0) \<and>
   (\<exists>g'. handle_collision eaten_example 0 = Inr g' \<and> score g' = 200 \<and> lives g' = 3 \<and>
      ghosts g' ! 0 = \<lparr>obj_y = 1, obj_x = 3, obj_dy = 0, obj_dx = 0, frightened = False\<rparr>)"
proof -
  have h1: "0 < length (ghosts eaten_example)"
    by (simp add: eaten_example_def)
  have h2: "0 < length (ghost_starts eaten_example)"
    by (simp add: eaten_example_def eval_defs)
  have h3: "frightened (ghosts eaten_example ! 0)"
    by (simp add: eaten_example_def)
  have v: "score eaten_example = 0" "lives eaten_example = 3"
    "ghost_starts eaten_example ! 0 = (1, 3)"
    by (simp_all add: eaten_example_def eval_defs)
  from eaten_ghost_collision [OF h1 h2 h3] v h1 h2 h3 show ?thesis
    by auto
qed

section \<open>The extra life\<close>

text \<open>
  C6.  The claim fails on the code where an eaten ghost carries the score over 10000:
  \<open>handle_collision\<close> adds 200 without calling \<open>check_extra_life\<close>, which the pellet,
  power pill and fruit pickups all call.  In \<open>threshold_example\<close> the tick ends with
  a score of 10100, the lives as before and no extra life awarded.
\<close>

theorem extra_life_missed_when_ghost_eaten:
  "\<exists>g'. update_game threshold_example 101 rnd0 = Inr g' \<and>
        score threshold_example = 9900 \<and> score g' = 10100 \<and>
        lives g' = lives threshold_example \<and> \<not> extra_life_awarded g'"
  by (simp add: threshold_example_def eval_defs)

section \<open>The empty world\<close>

text \<open>
  C9.  A maze file that cannot be read gives the world of height and width 0 without
  a player; a tick leaves it as it is and \<open>won\<close> stays false.  An arrow key, however,
  raises: lines 753-764 assign to \<open>self.pacman.next_dy\<close> without the test for a
  player that \<open>move_pacman\<close>, \<open>check_collisions\<close> and the crossing check make.
\<close>

theorem arrow_key_on_empty_world_raises:
  "height (init_game None) = 0 \<and> width (init_game None) = 0 \<and>
   pacman (init_game None) = None \<and>
   update_game (init_game None) t rnd = Inr (init_game None) \<and>
   \<not> won (init_game None) \<and>
   handle_key (init_game None) KeyUp = Inl AttributeError \<and>
   run_iter (init_game None) t0 KeyUp t rnd = Inl AttributeError"
  by (simp add: eval_defs run_iter_def)

section \<open>A hit by a ghost that is not frightened\<close>

lemmas step_defs =
  Let_def
  update_game_def move_pacman_def try_turn_def is_valid_move_def warp_target_def collect_def
  eat_pellet_def eat_power_pill_def eat_fruit_def check_win_def check_extra_life_def
  fruit_triggers_def spawn_fruit_def move_ghosts_def expire_power_mode_def update_fruit_def
  move_ghost_def choose_direction_def pick_direction_def get_valid_directions_def
  is_junction_def choice_def check_ghost_collision_with_crossing_def handle_collision_def
  reset_positions_def set_prev_ghost_def check_collisions_def rnd0_def enumerate_eq_zip
  set_intent_def upt_rec

lemma hit_example_fields:
  "original_map hit_example = [''########'', ''#    . #'', ''########'']"
  "height hit_example = 3" "width hit_example = 8"
  "pacman hit_example =
     Some \<lparr>obj_y = 1, obj_x = 1, obj_dy = 0, obj_dx = 0, next_dy = 0, next_dx = 1\<rparr>"
  "ghosts hit_example = [\<lparr>obj_y = 1, obj_x = 3, obj_dy = 0, obj_dx = 0, frightened = False\<rparr>,
                         \<lparr>obj_y = 1, obj_x = 6, obj_dy = 0, obj_dx = 0, frightened = False\<rparr>]"
  "ghost_starts hit_example = [(1, 3), (1, 6)]" "pacman_start hit_example = Some (1, 1)"
  "warp_left hit_example = None" "warp_right hit_example = None"
  "lives hit_example = 3" "game_over hit_example = False" "won hit_example = False"
  "pellets hit_example = {(1, 5)}" "power_pills hit_example = {}"
  "pellets_remaining hit_example = 1" "fruit hit_example = None"
  "fruit_active hit_example = False" "power_mode_time hit_example = 0"
  "prev_ghost_positions hit_example = [None, None]"
  by (simp_all add: hit_example_def eval_defs)

lemma reset_positions_Some:
  assumes "pacman g = Some p"
  shows "\<exists>g'. reset_positions g = Inr g' \<and>
     lives g' = lives g \<and> game_over g' = game_over g \<and> power_mode_time g' = 0 \<and>
     score g' = score g \<and>
     length (ghosts g') = length (ghosts g) \<and>
     pacman g' =
       Some ((case pacman_start g of Some s \<Rightarrow> p\<lparr>obj_y := fst s, obj_x := snd s\<rparr> | None \<Rightarrow> p)
          \<lparr>obj_dy := 0, obj_dx := 0, next_dy := 0, next_dx := 0\<rparr>) \<and>
     (\<forall>j < length (ghosts g). ghosts g' ! j =
         (if j < length (ghost_starts g)
          then (ghosts g ! j)\<lparr>obj_y := fst (ghost_starts g ! j), obj_x := snd (ghost_starts g ! j)\<rparr>
          else ghosts g ! j)\<lparr>obj_dy := 0, obj_dx := 0, frightened := False\<rparr>)"
  using assms by (simp add: reset_positions_def Let_def nth_enumerate_eq)

lemma pacman_reset_eq:
  "(p::PacMan)\<lparr>obj_y := a, obj_x := b, obj_dy := 0, obj_dx := 0, next_dy := 0, next_dx := 0\<rparr> =
   \<lparr>obj_y = a, obj_x = b, obj_dy = 0, obj_dx = 0, next_dy = 0, next_dx = 0\<rparr>"
  by (cases p) simp

lemma ghost_reset_eq2:
  "(gh::Ghost)\<lparr>obj_y := a, obj_x := b, obj_dy := 0, obj_dx := 0, frightened := False\<rparr> =
   \<lparr>obj_y = a, obj_x = b, obj_dy = 0, obj_dx = 0, frightened = False\<rparr>"
  by (cases gh) simp

lemma move_ghost_returned:
  assumes "move_ghost i r g = Inr (g2, returned)" "\<not> game_over g"
  shows "returned = game_over g2"
  using assms
  by (auto simp: move_ghost_def Let_def set_prev_ghost_fields
      split: option.splits if_splits sum.splits)

text \<open>
  C1, as the code has it.  A collision resolved against a ghost that is not
  frightened, while the player has lives left: \<open>handle_collision\<close> raises nothing and
  takes one life.  When that was the last life, \<open>game_over\<close> is set.  Otherwise the
  player and every ghost are on their recorded starts with velocity zero, no ghost is
  frightened and the power-mode timer is 0.  The iteration of \<open>move_ghosts\<close> executes
  \<open>return\<close> exactly when the game is over after it: a fatal hit ends the processing of
  the ghosts, after a hit that is not fatal the remaining ghosts are still processed
  in that tick.
\<close>

theorem hit_by_ghost:
  assumes "pacman g = Some p" and "pacman_start g = Some s"
    and "length (ghost_starts g) = length (ghosts g)"
    and "i < length (ghosts g)" and "\<not> frightened (ghosts g ! i)" and "lives g > 0"
  shows "\<exists>g'. handle_collision g i = Inr g' \<and> lives g' = lives g - 1 \<and>
     (lives g = 1 \<longrightarrow> game_over g') \<and>
     (lives g \<noteq> 1 \<longrightarrow>
        game_over g' = game_over g \<and>
        pacman g' = Some \<lparr>obj_y = fst s, obj_x = snd s, obj_dy = 0, obj_dx = 0,
                           next_dy = 0, next_dx = 0\<rparr> \<and>
        length (ghosts g') = length (ghosts g) \<and>
        (\<forall>j < length (ghosts g). ghosts g' ! j =
           \<lparr>obj_y = fst (ghost_starts g ! j), obj_x = snd (ghost_starts g ! j),
            obj_dy = 0, obj_dx = 0, frightened = False\<rparr>) \<and>
        power_mode_time g' = 0) \<and>
     (\<forall>r g2 returned. \<not> game_over g \<longrightarrow> move_ghost i r g = Inr (g2, returned) \<longrightarrow>
        returned = game_over g2)"
proof (cases "lives g = 1")
  case True
  then have "handle_collision g i = Inr (g\<lparr>lives := 0, game_over := True\<rparr>)"
    using assms(5) by (simp add: handle_collision_def Let_def)
  with True show ?thesis
    using move_ghost_returned by auto
next
  case False
  let ?g1 = "g\<lparr>lives := lives g - 1\<rparr>"
  have hc: "handle_collision g i = reset_positions ?g1"
    using False assms(5,6) by (simp add: handle_collision_def Let_def)
  have "pacman ?g1 = Some p"
    using assms(1) by simp
  from reset_positions_Some [OF this] obtain g' where
    g': "reset_positions ?g1 = Inr g'" "lives g' = lives g - 1" "game_over g' = game_over g"
      "power_mode_time g' = 0" "length (ghosts g') = length (ghosts g)"
      "pacman g' = Some (p\<lparr>obj_y := fst s, obj_x := snd s, obj_dy := 0, obj_dx := 0,
          next_dy := 0, next_dx := 0\<rparr>)"
      "\<forall>j < length (ghosts g). ghosts g' ! j =
         (ghosts g ! j)\<lparr>obj_y := fst (ghost_starts g ! j), obj_x := snd (ghost_starts g ! j),
            obj_dy := 0, obj_dx := 0, frightened := False\<rparr>"
    using assms(2,3) by auto
  show ?thesis
    apply (rule exI [of _ g'])
    using hc g' False move_ghost_returned
    by (auto simp: pacman_reset_eq ghost_reset_eq2)
qed

theorem hit_by_ghost_witness:
  "pacman hit_example =
     Some \<lparr>obj_y = 1, obj_x = 1, obj_dy = 0, obj_dx = 0, next_dy = 0, next_dx = 1\<rparr> \<and>
   pacman_start hit_example = Some (1, 1) \<and>
   length (ghost_starts hit_example) = length (ghosts hit_example) \<and>
   0 < length (ghosts hit_example) \<and> \<not> frightened (ghosts hit_example ! 0) \<and>
   lives hit_example > 0 \<and>
   (\<exists>g'. handle_collision hit_example 0 = Inr g' \<and> lives g' = 2 \<and> \<not> game_over g' \<and>
      pacman g' =
        Some \<lparr>obj_y = 1, obj_x = 1, obj_dy = 0, obj_dx = 0, next_dy = 0, next_dx = 0\<rparr> \<and>
      power_mode_time g' = 0)"
proof -
  have h: "pacman hit_example =
      Some \<lparr>obj_y = 1, obj_x = 1, obj_dy = 0, obj_dx = 0, next_dy = 0, next_dx = 1\<rparr>"
    "pacman_start hit_example = Some (1, 1)"
    "length (ghost_starts hit_example) = length (ghosts hit_example)"
    "0 < length (ghosts hit_example)" "\<not> frightened (ghosts hit_example ! 0)"
    "lives hit_example > 0"
    by (simp_all add: hit_example_fields)
  have v: "lives hit_example = 3" "\<not> game_over hit_example"
    by (simp_all add: hit_example_fields)
  from hit_by_ghost [OF h] v h show ?thesis
    by auto
qed

text \<open>
  C1 as stated fails.  In \<open>hit_example\<close> the player steps right and the first ghost
  steps onto it: the hit costs one of three lives and the iteration does not end the
  loop, the second ghost then standing on its start \<open>(1, 6)\<close>.  At the end of the same
  tick the second ghost is on \<open>(1, 5)\<close>: it moved after the hit.
\<close>

theorem nonfatal_hit_does_not_interrupt:
  "lives (move_pacman hit_example 1) = 3 \<and>
   \<not> frightened (ghosts (move_pacman hit_example 1) ! 0) \<and>
   \<not> isl (move_ghost 0 (rnd0 0) (move_pacman hit_example 1)) \<and>
   lives (fst (projr (move_ghost 0 (rnd0 0) (move_pacman hit_example 1)))) = 2 \<and>
   \<not> game_over (fst (projr (move_ghost 0 (rnd0 0) (move_pacman hit_example 1)))) \<and>
   ghosts (fst (projr (move_ghost 0 (rnd0 0) (move_pacman hit_example 1)))) ! 1 =
     \<lparr>obj_y = 1, obj_x = 6, obj_dy = 0, obj_dx = 0, frightened = False\<rparr> \<and>
   \<not> isl (update_game hit_example 1 rnd0) \<and>
   lives (projr (update_game hit_example 1 rnd0)) = 2 \<and>
   ghosts (projr (update_game hit_example 1 rnd0)) ! 1 =
     \<lparr>obj_y = 1, obj_x = 5, obj_dy = 0, obj_dx = - 1, frightened = False\<rparr>"
proof -
  have a: "lives (move_pacman hit_example 1) = 3 \<and>
      \<not> frightened (ghosts (move_pacman hit_example 1) ! 0)"
    by (simp add: hit_example_fields step_defs)
  have b: "\<exists>g. move_ghost 0 (rnd0 0) (move_pacman hit_example 1) = Inr (g, False) \<and>
      lives g = 2 \<and> \<not> game_over g \<and>
      ghosts g ! 1 = \<lparr>obj_y = 1, obj_x = 6, obj_dy = 0, obj_dx = 0, frightened = False\<rparr>"
    by (simp add: hit_example_fields step_defs)
  have c: "\<exists>g. update_game hit_example 1 rnd0 = Inr g \<and> lives g = 2 \<and>
      ghosts g ! 1 = \<lparr>obj_y = 1, obj_x = 5, obj_dy = 0, obj_dx = - 1, frightened = False\<rparr>"
    by (simp add: hit_example_fields step_defs)
  from a b c show ?thesis by auto
qed

section \<open>The invariants hold in every state of a run\<close>

lemma is_valid_move_cell:
  "is_valid_move g y x \<longleftrightarrow> (\<exists>c. cell g (y, x) = Some c \<and> c \<noteq> CHR ''#'')"
  by (simp add: is_valid_move_def cell_def cell_of_def)

lemma cell_of_blank:
  assumes "h = int (length m)" "\<forall>row \<in> set m. int (length row) = w"
    and "y < length m" "x < length (m ! y)"
  shows "cell_of (blank_cell m y x) h w p =
     (if p = (int y, int x) then Some CHR '' '' else cell_of m h w p)"
proof -
  have xw: "int x < w" using assms(2,3,4) by (metis nth_mem of_nat_less_iff)
  show ?thesis
  proof (cases "0 \<le> fst p \<and> fst p < h \<and> 0 \<le> snd p \<and> snd p < w")
    case False
    then show ?thesis using assms(1,3) xw by (auto simp: cell_of_def)
  next
    case True
    then have b: "nat (fst p) < length m" using assms(1) by auto
    then have "length (m ! nat (fst p)) = nat w" using assms(2) by (metis nat_int nth_mem)
    then have c: "nat (snd p) < length (m ! nat (fst p))" using True by auto
    show ?thesis
      using True b c assms(3,4)
      by (cases p) (auto simp: cell_of_def blank_cell_def nth_list_update)
  qed
qed

lemma blank_cell_length:
  "length (blank_cell m y x) = length m"
  by (simp add: blank_cell_def)

lemma blank_cell_rows:
  assumes "\<forall>row \<in> set m. int (length row) = w"
  shows "\<forall>row \<in> set (blank_cell m y x). int (length row) = w"
proof
  fix row assume "row \<in> set (blank_cell m y x)"
  then obtain i where i: "i < length m" "row = blank_cell m y x ! i"
    by (auto simp: in_set_conv_nth blank_cell_length)
  then show "int (length row) = w"
    using assms by (cases "i = y") (auto simp: blank_cell_def)
qed

lemma cell_at_parse:
  assumes "map_ok g" "y < length (original_map g)" "x < length (original_map g ! y)"
  shows "cell g (int y, int x) = Some (original_map g ! y ! x)"
proof -
  have "int (length (original_map g ! y)) = width g"
    using assms(1,2) by (simp add: map_ok_def)
  with assms(3) have "int x < width g" by linarith
  moreover have "int y < height g"
    using assms(1,2) by (simp add: map_ok_def)
  ultimately show ?thesis
    by (simp add: cell_def cell_of_def)
qed

lemma cell_blank:
  assumes "map_ok g" "y < length (original_map g)" "x < length (original_map g ! y)"
    and "original_map g' = blank_cell (original_map g) y x"
    and "height g' = height g" "width g' = width g"
  shows "cell g' p = (if p = (int y, int x) then Some CHR '' '' else cell g p)"
  using assms cell_of_blank [of "height g" "original_map g" "width g" y x p]
  by (simp add: cell_def map_ok_def)

lemma map_ok_blank:
  assumes "map_ok g" "original_map g' = blank_cell (original_map g) y x"
    and "height g' = height g" "width g' = width g"
  shows "map_ok g'"
  using assms blank_cell_rows [of "original_map g" "width g" y x]
  by (simp add: map_ok_def blank_cell_length)

lemma world_ok_blank:
  assumes "world_ok g" "y < length (original_map g)" "x < length (original_map g ! y)"
    and "original_map g ! y ! x \<noteq> CHR ''.''" "original_map g ! y ! x \<noteq> CHR ''o''"
    and "original_map g' = blank_cell (original_map g) y x"
    and "height g' = height g" "width g' = width g"
    and "initial_pellets g' = initial_pellets g"
    and "initial_power_pills g' = initial_power_pills g"
    and "\<forall>p. initial_fruit g' = Some p \<longrightarrow> initial_fruit g = Some p \<or> p = (int y, int x)"
    and "\<forall>p. warp_left g' = Some p \<longrightarrow> warp_left g = Some p \<or> p = (int y, int x)"
    and "\<forall>p. warp_right g' = Some p \<longrightarrow> warp_right g = Some p \<or> p = (int y, int x)"
    and "\<forall>p. pacman_start g' = Some p \<longrightarrow> pacman_start g = Some p \<or> p = (int y, int x)"
    and "set (ghost_starts g') \<subseteq> insert (int y, int x) (set (ghost_starts g))"
  shows "world_ok g'"
proof -
  have m: "map_ok g" using assms(1) by (simp add: world_ok_def)
  have here: "cell g (int y, int x) = Some (original_map g ! y ! x)"
    using m assms(2,3) by (rule cell_at_parse)
  have c: "\<And>p. cell g' p = (if p = (int y, int x) then Some CHR '' '' else cell g p)"
    using m assms(2,3,6,7,8) by (rule cell_blank)
  have m': "map_ok g'" using m assms(6,7,8) by (rule map_ok_blank)
  have 1: "\<forall>p \<in> initial_pellets g'. cell g' p = Some CHR ''.''"
    using assms(1,4,9) here by (auto simp: c world_ok_def)
  have 2: "\<forall>p \<in> initial_power_pills g'. cell g' p = Some CHR ''o''"
    using assms(1,5,10) here by (auto simp: c world_ok_def)
  have 3: "\<forall>p. initial_fruit g' = Some p \<longrightarrow> cell g' p = Some CHR '' ''"
    using assms(1,11) by (auto simp: c world_ok_def)
  have 4: "\<forall>p. warp_left g' = Some p \<longrightarrow> cell g' p = Some CHR '' ''"
    using assms(1,12) by (auto simp: c world_ok_def)
  have 5: "\<forall>p. warp_right g' = Some p \<longrightarrow> cell g' p = Some CHR '' ''"
    using assms(1,13) by (auto simp: c world_ok_def)
  have 6: "\<forall>p. pacman_start g' = Some p \<longrightarrow> cell g' p = Some CHR '' ''"
    using assms(1,14) by (auto simp: c world_ok_def)
  have 7: "\<forall>p \<in> set (ghost_starts g'). cell g' p = Some CHR '' ''"
    using assms(1,15) by (auto simp: c world_ok_def)
  from m' 1 2 3 4 5 6 7 show ?thesis
    unfolding world_ok_def by blast
qed

lemma world_ok_same_map:
  assumes "world_ok g"
    and "original_map g' = original_map g" "height g' = height g" "width g' = width g"
    and "\<forall>p \<in> initial_pellets g'. p \<in> initial_pellets g \<or> cell g p = Some CHR ''.''"
    and "\<forall>p \<in> initial_power_pills g'. p \<in> initial_power_pills g \<or> cell g p = Some CHR ''o''"
    and "initial_fruit g' = initial_fruit g" "warp_left g' = warp_left g"
    and "warp_right g' = warp_right g" "pacman_start g' = pacman_start g"
    and "ghost_starts g' = ghost_starts g"
  shows "world_ok g'"
proof -
  have c: "\<And>p. cell g' p = cell g p"
    using assms(2,3,4) by (simp add: cell_def)
  have m: "map_ok g'" using assms(1,2,3,4) by (simp add: world_ok_def map_ok_def)
  show ?thesis
    unfolding world_ok_def using m assms(1,5-11) by (auto simp: c world_ok_def)
qed

lemma parse_cell_size:
  "height (parse_cell y x g) = height g" "width (parse_cell y x g) = width g"
  "length (original_map (parse_cell y x g)) = length (original_map g)"
  by (simp_all add: parse_cell_def Let_def blank_cell_length)

lemma parse_cell_ok:
  assumes "parsed_ok g" "y < length (original_map g)" "x < length (original_map g ! y)"
  shows "parsed_ok (parse_cell y x g)"
proof -
  have w: "world_ok g" and m: "map_ok g"
    using assms(1) by (simp_all add: parsed_ok_def world_ok_def)
  have here: "cell g (int y, int x) = Some (original_map g ! y ! x)"
    using m assms(2,3) by (rule cell_at_parse)
  let ?ch = "original_map g ! y ! x"
  let ?g' = "parse_cell y x g"
  have rest: "pellets ?g' = initial_pellets ?g' \<and> power_pills ?g' = initial_power_pills ?g' \<and>
     fruit ?g' = initial_fruit ?g' \<and>
     pacman_start ?g' = map_option (\<lambda>p. (obj_y p, obj_x p)) (pacman ?g') \<and>
     ghost_starts ?g' = map (\<lambda>gh. (obj_y gh, obj_x gh)) (ghosts ?g')"
    using assms(1) by (simp add: parsed_ok_def parse_cell_def Let_def new_pacman_def new_ghost_def)
  have "world_ok ?g'"
  proof (cases "?ch = CHR ''.'' \<or> ?ch = CHR ''o''")
    case True
    show ?thesis
      apply (rule world_ok_same_map [OF w])
      using True here by (auto simp: parse_cell_def Let_def)
  next
    case False
    show ?thesis
    proof (cases "?ch \<in> {CHR ''c'', CHR ''n'', CHR ''@'', CHR ''<'', CHR ''>''}")
      case True
      show ?thesis
        apply (rule world_ok_blank [OF w assms(2,3)])
        using True False by (auto simp: parse_cell_def Let_def)
    next
      case b: False
      then have "?g' = g" using False by (simp add: parse_cell_def Let_def)
      then show ?thesis using w by simp
    qed
  qed
  with rest show ?thesis by (simp add: parsed_ok_def)
qed

lemma map_ok_bounds:
  assumes "map_ok g"
  shows "y < length (original_map g) \<longleftrightarrow> int y < height g"
    and "int y < height g \<Longrightarrow> x < length (original_map g ! y) \<longleftrightarrow> int x < width g"
proof -
  show a: "y < length (original_map g) \<longleftrightarrow> int y < height g"
    using assms by (simp add: map_ok_def)
  assume "int y < height g"
  then have "int (length (original_map g ! y)) = width g"
    using assms a by (simp add: map_ok_def)
  then show "x < length (original_map g ! y) \<longleftrightarrow> int x < width g"
    by linarith
qed

lemma fold_parse_cell_ok:
  assumes "parsed_ok g" "int y < height g" "\<forall>x \<in> set xs. int x < width g"
  shows "parsed_ok (fold (parse_cell y) xs g) \<and>
     height (fold (parse_cell y) xs g) = height g \<and> width (fold (parse_cell y) xs g) = width g"
  using assms
proof (induction xs arbitrary: g)
  case Nil
  then show ?case by simp
next
  case (Cons x xs)
  have m: "map_ok g" using Cons.prems(1) by (simp add: parsed_ok_def world_ok_def)
  have "parsed_ok (parse_cell y x g)"
    using Cons.prems map_ok_bounds [OF m] by (intro parse_cell_ok) auto
  then show ?case
    using Cons.IH [of "parse_cell y x g"] Cons.prems by (simp add: parse_cell_size)
qed

lemma parse_row_ok:
  assumes "parsed_ok g" "int y < height g"
  shows "parsed_ok (parse_row y g) \<and> height (parse_row y g) = height g \<and>
     width (parse_row y g) = width g"
proof -
  have m: "map_ok g" using assms(1) by (simp add: parsed_ok_def world_ok_def)
  have "\<forall>x \<in> set [0..<length (original_map g ! y)]. int x < width g"
    using map_ok_bounds(2) [OF m assms(2)] by simp
  then show ?thesis
    unfolding parse_row_def using assms by (intro fold_parse_cell_ok)
qed

lemma fold_parse_row_ok:
  assumes "parsed_ok g" "\<forall>y \<in> set ys. int y < height g"
  shows "parsed_ok (fold parse_row ys g)"
  using assms
proof (induction ys arbitrary: g)
  case Nil
  then show ?case by simp
next
  case (Cons y ys)
  then show ?case
    using parse_row_ok [of g y] by simp
qed

lemma fold_width_ge:
  "w0 \<le> fold (\<lambda>row w. if int (length row) > w then int (length row) else w) rows w0 \<and>
   (\<forall>row \<in> set rows.
      int (length row) \<le> fold (\<lambda>row w. if int (length row) > w then int (length row) else w) rows w0)"
proof (induction rows arbitrary: w0)
  case Nil
  then show ?case by simp
next
  case (Cons r rows)
  let ?w1 = "if int (length r) > w0 then int (length r) else w0"
  have "w0 \<le> ?w1" "int (length r) \<le> ?w1" by auto
  with Cons [of ?w1] show ?case
    by (auto simp del: of_nat_less_iff intro: order_trans)
qed

lemma load_map_ok: "parsed_ok (load_map fresh_game src)"
proof -
  let ?lns = "case src of None \<Rightarrow> [] | Some ls \<Rightarrow> ls"
  let ?rows = "map (\<lambda>line. rstrip line [CHR 0x5C, CHR ''n'']) ?lns"
  let ?w = "fold (\<lambda>row w. if int (length row) > w then int (length row) else w) ?rows 0"
  have w: "0 \<le> ?w" "\<forall>row \<in> set ?rows. int (length row) \<le> ?w"
    using fold_width_ge [of 0 ?rows] by blast+
  have "\<forall>row \<in> set ?rows. int (length (row @ replicate (nat ?w - length row) CHR '' '')) = ?w"
    using w by auto
  then have "map_ok (load_map fresh_game src)"
    by (simp add: map_ok_def load_map_def Let_def)
  then show ?thesis
    by (simp add: parsed_ok_def world_ok_def load_map_def fresh_game_def Let_def)
qed

lemma parsed_ok_finish:
  assumes "parsed_ok g"
  shows "parsed_ok (g\<lparr>pellets_remaining := a, prev_ghost_positions := b\<rparr>)"
proof -
  have "world_ok (g\<lparr>pellets_remaining := a, prev_ghost_positions := b\<rparr>)"
    by (rule world_ok_same_map [of g]) (use assms in \<open>simp_all add: parsed_ok_def\<close>)
  then show ?thesis
    using assms by (simp add: parsed_ok_def)
qed

lemma init_game_parsed_ok: "parsed_ok (init_game src)"
proof -
  let ?g = "load_map fresh_game src"
  have m: "map_ok ?g" using load_map_ok [of src] by (simp add: parsed_ok_def world_ok_def)
  have "\<forall>y \<in> set [0..<length (original_map ?g)]. int y < height ?g"
    using map_ok_bounds(1) [OF m] by simp
  then have p: "parsed_ok (fold parse_row [0..<length (original_map ?g)] ?g)"
    using load_map_ok by (intro fold_parse_row_ok)
  show ?thesis
    unfolding init_game_def parse_map_def Let_def
    using p by (rule parsed_ok_finish)
qed

lemma static_updates [simp]:
  "static (score_update f1 g) = static g"
  "static (lives_update f2 g) = static g"
  "static (game_over_update f3 g) = static g"
  "static (won_update f4 g) = static g"
  "static (power_mode_time_update f5 g) = static g"
  "static (pellets_remaining_update f6 g) = static g"
  "static (speed_update f7 g) = static g"
  "static (level_update f8 g) = static g"
  "static (extra_life_awarded_update f9 g) = static g"
  "static (fruit_spawn_time_update f10 g) = static g"
  "static (fruit_active_update f11 g) = static g"
  "static (dots_eaten_update f12 g) = static g"
  "static (fruit_triggered_70_update f13 g) = static g"
  "static (fruit_triggered_170_update f14 g) = static g"
  "static (pacman_update f15 g) = static g"
  "static (ghosts_update f16 g) = static g"
  "static (fruit_update f17 g) = static g"
  "static (pellets_update f18 g) = static g"
  "static (power_pills_update f19 g) = static g"
  "static (prev_pacman_pos_update f20 g) = static g"
  "static (prev_ghost_positions_update f21 g) = static g"
  by (simp_all add: static_def)

lemma static_fields:
  assumes "static g' = static g"
  shows "original_map g' = original_map g" "height g' = height g" "width g' = width g"
    "initial_pellets g' = initial_pellets g" "initial_power_pills g' = initial_power_pills g"
    "initial_fruit g' = initial_fruit g" "warp_left g' = warp_left g"
    "warp_right g' = warp_right g" "pacman_start g' = pacman_start g"
    "ghost_starts g' = ghost_starts g"
  using assms by (simp_all add: static_def)

lemma static_cell:
  assumes "static g' = static g"
  shows "cell g' p = cell g p"
  unfolding cell_def using static_fields(1,2,3) [OF assms] by simp

lemma static_is_valid_move:
  assumes "static g' = static g"
  shows "is_valid_move g' y x = is_valid_move g y x"
  unfolding is_valid_move_def using static_fields(1,2,3) [OF assms] by simp

lemma static_warp_target:
  assumes "static g' = static g"
  shows "warp_target g' y x dx = warp_target g y x dx"
  unfolding warp_target_def using static_fields(7,8) [OF assms] by simp

lemma static_get_valid_directions:
  assumes "static g' = static g"
  shows "get_valid_directions g' y x = get_valid_directions g y x"
  unfolding get_valid_directions_def by (simp add: static_is_valid_move [OF assms])

lemma static_world_ok:
  assumes "static g' = static g"
  shows "world_ok g' = world_ok g"
proof -
  have "map_ok g' = map_ok g"
    unfolding map_ok_def using static_fields(1,2,3) [OF assms] by simp
  then show ?thesis
    unfolding world_ok_def
    by (simp only: static_cell [OF assms] static_fields(4-10) [OF assms])
qed

lemma static_move_pacman_parts [simp]:
  "static (check_extra_life g) = static g"
  "static (spawn_fruit g t) = static g"
  "static (update_fruit g t) = static g"
  "static (expire_power_mode g t) = static g"
  "static (check_win g) = static g"
  "static (eat_fruit g pos) = static g"
  "static (set_prev_ghost g i old) = static g"
  by (simp_all add: check_extra_life_def spawn_fruit_def update_fruit_def expire_power_mode_def
      check_win_def eat_fruit_def set_prev_ghost_def)

lemma static_fruit_triggers [simp]: "static (fruit_triggers g t) = static g"
  by (simp add: fruit_triggers_def)

lemma static_eat [simp]:
  "static (eat_pellet g pos t) = static g" "static (eat_power_pill g pos t) = static g"
  by (simp_all add: eat_pellet_def eat_power_pill_def Let_def)

lemma static_collect [simp]: "static (collect g p old t) = static g"
  by (simp add: collect_def Let_def)

lemma static_move_pacman [simp]: "static (move_pacman g t) = static g"
  by (simp add: move_pacman_def Let_def split: option.split)

lemma static_reset_positions: "reset_positions g = Inr g' \<Longrightarrow> static g' = static g"
  by (auto simp: reset_positions_def Let_def split: option.splits)

lemma static_handle_collision: "handle_collision g i = Inr g' \<Longrightarrow> static g' = static g"
  by (auto simp: handle_collision_def Let_def static_reset_positions split: if_splits)

lemma static_move_ghost: "move_ghost i r g = Inr (g', b) \<Longrightarrow> static g' = static g"
  by (auto simp: move_ghost_def Let_def dest!: static_handle_collision
      split: option.splits if_splits sum.splits)

lemma static_move_ghosts_loop: "move_ghosts_loop rnd is g = Inr g' \<Longrightarrow> static g' = static g"
proof (induction "is" arbitrary: g)
  case Nil
  then show ?case by simp
next
  case (Cons i "is")
  then show ?case
    by (auto split: sum.splits if_splits dest: static_move_ghost)
qed

lemma static_move_ghosts: "move_ghosts g t rnd = Inr g' \<Longrightarrow> static g' = static g"
  by (auto simp: move_ghosts_def Let_def dest: static_move_ghosts_loop)

lemma static_check_collisions_loop:
  "check_collisions_loop is g p = Inr g' \<Longrightarrow> static g' = static g"
  by (induction "is") (auto split: if_splits dest: static_handle_collision)

lemma static_check_collisions: "check_collisions g = Inr g' \<Longrightarrow> static g' = static g"
  by (auto simp: check_collisions_def split: option.splits dest: static_check_collisions_loop)

lemma static_update_game: "update_game g t rnd = Inr g' \<Longrightarrow> static g' = static g"
  by (auto simp: update_game_def split: sum.splits
      dest!: static_check_collisions static_move_ghosts)

lemma static_next_level: "next_level g = Inr g' \<Longrightarrow> static g' = static g"
  by (auto simp: next_level_def Let_def split: sum.splits dest!: static_reset_positions)

lemma static_reset_game: "reset_game g = Inr g' \<Longrightarrow> static g' = static g"
  by (auto simp: reset_game_def dest!: static_reset_positions)

lemma static_handle_key: "handle_key g k = Inr g' \<Longrightarrow> static g' = static g"
  by (cases k)
    (auto simp: set_intent_def split: if_splits option.splits
      dest!: static_next_level static_reset_game)

lemma check_crossing_pacman:
  "check_ghost_collision_with_crossing g ghost oy ox \<Longrightarrow> pacman g \<noteq> None"
  by (auto simp: check_ghost_collision_with_crossing_def split: option.splits)

lemma move_ghost_cases [consumes 1, case_names warp warp_hit step step_hit blocked]:
  fixes g :: Game and i :: nat and r :: ghost_rand
  defines "ghost \<equiv> choose_direction g (ghosts g ! i) r"
  defines "old \<equiv> (obj_y (ghosts g ! i), obj_x (ghosts g ! i))"
  assumes mg: "move_ghost i r g = Inr (g', b)"
  assumes warp: "\<And>w. warp_target g (obj_y ghost) (obj_x ghost) (obj_dx ghost) = Some w \<Longrightarrow>
        g' = set_prev_ghost (g\<lparr>ghosts := (ghosts g)[i := ghost\<lparr>obj_y := fst w, obj_x := snd w\<rparr>]\<rparr>) i old
        \<Longrightarrow> \<not> b \<Longrightarrow> P"
  assumes warp_hit: "\<And>w. warp_target g (obj_y ghost) (obj_x ghost) (obj_dx ghost) = Some w \<Longrightarrow>
        pacman g \<noteq> None \<Longrightarrow>
        handle_collision
          (set_prev_ghost (g\<lparr>ghosts := (ghosts g)[i := ghost\<lparr>obj_y := fst w, obj_x := snd w\<rparr>]\<rparr>) i old) i
          = Inr g' \<Longrightarrow> b = game_over g' \<Longrightarrow> P"
  assumes step: "is_valid_move g (obj_y ghost + obj_dy ghost) (obj_x ghost + obj_dx ghost) \<Longrightarrow>
        g' = set_prev_ghost
               (g\<lparr>ghosts := (ghosts g)[i := ghost\<lparr>obj_y := obj_y ghost + obj_dy ghost,
                                                    obj_x := obj_x ghost + obj_dx ghost\<rparr>]\<rparr>) i old
        \<Longrightarrow> \<not> b \<Longrightarrow> P"
  assumes step_hit: "\<And>g2. is_valid_move g (obj_y ghost + obj_dy ghost) (obj_x ghost + obj_dx ghost) \<Longrightarrow>
        pacman g \<noteq> None \<Longrightarrow>
        handle_collision
          (g\<lparr>ghosts := (ghosts g)[i := ghost\<lparr>obj_y := obj_y ghost + obj_dy ghost,
                                               obj_x := obj_x ghost + obj_dx ghost\<rparr>]\<rparr>) i = Inr g2 \<Longrightarrow>
        g' = (if game_over g2 then g2 else set_prev_ghost g2 i old) \<Longrightarrow> b = game_over g2 \<Longrightarrow> P"
  assumes blocked: "g' = set_prev_ghost
               (g\<lparr>ghosts := (ghosts g)[i := pick_direction ghost
                    (get_valid_directions g (obj_y ghost) (obj_x ghost)) (r_wall r)]\<rparr>) i old
        \<Longrightarrow> \<not> b \<Longrightarrow> P"
  shows P
proof (cases "warp_target g (obj_y ghost) (obj_x ghost) (obj_dx ghost)")
  case (Some w)
  let ?g1 = "set_prev_ghost (g\<lparr>ghosts := (ghosts g)[i := ghost\<lparr>obj_y := fst w, obj_x := snd w\<rparr>]\<rparr>) i old"
  show ?thesis
  proof (cases "check_ghost_collision_with_crossing ?g1 (ghosts ?g1 ! i) (fst old) (snd old)")
    case True
    then have "pacman g \<noteq> None"
      using check_crossing_pacman [OF True] by (simp add: set_prev_ghost_def split: if_splits)
    moreover have "handle_collision ?g1 i = Inr g' \<and> b = game_over g'"
      using mg Some True unfolding move_ghost_def ghost_def old_def Let_def
      by (auto split: sum.splits)
    ultimately show ?thesis using warp_hit [OF Some] by blast
  next
    case False
    have "g' = ?g1 \<and> \<not> b"
      using mg Some False unfolding move_ghost_def ghost_def old_def Let_def
      by auto
    then show ?thesis using warp [OF Some] by blast
  qed
next
  case None
  show ?thesis
  proof (cases "is_valid_move g (obj_y ghost + obj_dy ghost) (obj_x ghost + obj_dx ghost)")
    case v: True
    let ?g1 = "g\<lparr>ghosts := (ghosts g)[i := ghost\<lparr>obj_y := obj_y ghost + obj_dy ghost,
                                               obj_x := obj_x ghost + obj_dx ghost\<rparr>]\<rparr>"
    show ?thesis
    proof (cases "check_ghost_collision_with_crossing ?g1 (ghosts ?g1 ! i) (fst old) (snd old)")
      case True
      then have "pacman g \<noteq> None"
        using check_crossing_pacman [OF True] by simp
      moreover have "\<exists>g2. handle_collision ?g1 i = Inr g2 \<and>
          g' = (if game_over g2 then g2 else set_prev_ghost g2 i old) \<and> b = game_over g2"
        using mg None v True unfolding move_ghost_def ghost_def old_def Let_def
        by (auto split: sum.splits if_splits)
      ultimately show ?thesis using step_hit [OF v] by blast
    next
      case False
      have "g' = set_prev_ghost ?g1 i old \<and> \<not> b"
        using mg None v False unfolding move_ghost_def ghost_def old_def Let_def
        by auto
      then show ?thesis using step [OF v] by blast
    qed
  next
    case False
    have "g' = set_prev_ghost
               (g\<lparr>ghosts := (ghosts g)[i := pick_direction ghost
                    (get_valid_directions g (obj_y ghost) (obj_x ghost)) (r_wall r)]\<rparr>) i old \<and> \<not> b"
      using mg None False unfolding move_ghost_def ghost_def old_def Let_def
      by auto
    then show ?thesis using blocked by blast
  qed
qed

lemma kept_updates [simp]:
  "kept (score_update f1 g) = kept g"
  "kept (lives_update f2 g) = kept g"
  "kept (game_over_update f3 g) = kept g"
  "kept (power_mode_time_update f5 g) = kept g"
  "kept (fruit_spawn_time_update f10 g) = kept g"
  "kept (fruit_active_update f11 g) = kept g"
  "kept (pacman_update f15 g) = kept g"
  "kept (ghosts_update f16 g) = kept g"
  "kept (prev_pacman_pos_update f20 g) = kept g"
  "kept (prev_ghost_positions_update f21 g) = kept g"
  by (simp_all add: kept_def)

lemma is_valid_move_updates [simp]:
  "is_valid_move (score_update f0 g) = is_valid_move g"
  "is_valid_move (lives_update f1 g) = is_valid_move g"
  "is_valid_move (game_over_update f2 g) = is_valid_move g"
  "is_valid_move (won_update f3 g) = is_valid_move g"
  "is_valid_move (power_mode_time_update f4 g) = is_valid_move g"
  "is_valid_move (pellets_remaining_update f5 g) = is_valid_move g"
  "is_valid_move (speed_update f6 g) = is_valid_move g"
  "is_valid_move (level_update f7 g) = is_valid_move g"
  "is_valid_move (extra_life_awarded_update f8 g) = is_valid_move g"
  "is_valid_move (fruit_spawn_time_update f9 g) = is_valid_move g"
  "is_valid_move (fruit_active_update f10 g) = is_valid_move g"
  "is_valid_move (dots_eaten_update f11 g) = is_valid_move g"
  "is_valid_move (fruit_triggered_70_update f12 g) = is_valid_move g"
  "is_valid_move (fruit_triggered_170_update f13 g) = is_valid_move g"
  "is_valid_move (pacman_update f14 g) = is_valid_move g"
  "is_valid_move (ghosts_update f15 g) = is_valid_move g"
  "is_valid_move (fruit_update f16 g) = is_valid_move g"
  "is_valid_move (pellets_update f17 g) = is_valid_move g"
  "is_valid_move (power_pills_update f18 g) = is_valid_move g"
  "is_valid_move (prev_pacman_pos_update f19 g) = is_valid_move g"
  "is_valid_move (prev_ghost_positions_update f20 g) = is_valid_move g"
  by (simp_all add: is_valid_move_def fun_eq_iff)

lemma ghost_frame_refl: "ghost_frame g g"
  by (simp add: ghost_frame_def)

lemma ghost_frame_trans: "ghost_frame g g1 \<Longrightarrow> ghost_frame g1 g2 \<Longrightarrow> ghost_frame g g2"
  by (simp add: ghost_frame_def)

lemma ghost_frame_static: "ghost_frame g g' \<Longrightarrow> static g' = static g"
  by (simp add: ghost_frame_def kept_def)

lemma world_ok_valid:
  assumes "world_ok g"
  shows "pacman_start g = Some s \<Longrightarrow> is_valid_move g (fst s) (snd s)"
    and "i < length (ghost_starts g) \<Longrightarrow>
           is_valid_move g (fst (ghost_starts g ! i)) (snd (ghost_starts g ! i))"
    and "warp_target g y x dx = Some w \<Longrightarrow> is_valid_move g (fst w) (snd w)"
proof -
  have blank: "\<And>p. cell g p = Some CHR '' '' \<Longrightarrow> is_valid_move g (fst p) (snd p)"
    by (simp add: is_valid_move_cell)
  show "pacman_start g = Some s \<Longrightarrow> is_valid_move g (fst s) (snd s)"
    using assms by (intro blank) (simp add: world_ok_def)
  show "i < length (ghost_starts g) \<Longrightarrow>
           is_valid_move g (fst (ghost_starts g ! i)) (snd (ghost_starts g ! i))"
    using assms by (intro blank) (simp add: world_ok_def)
  show "warp_target g y x dx = Some w \<Longrightarrow> is_valid_move g (fst w) (snd w)"
    using assms by (intro blank) (auto simp: world_ok_def warp_target_def split: option.splits if_splits)
qed

lemma position_choose_direction [simp]:
  "obj_y (choose_direction g ghost r) = obj_y ghost"
  "obj_x (choose_direction g ghost r) = obj_x ghost"
  "obj_y (pick_direction ghost ds n) = obj_y ghost"
  "obj_x (pick_direction ghost ds n) = obj_x ghost"
  by (simp_all add: choose_direction_def pick_direction_def Let_def)

text \<open>Leaves: the redraw position, one ghost replaced.\<close>

lemma set_prev_ghost_frame: "ghost_frame g (set_prev_ghost g i old)"
  by (simp add: ghost_frame_def set_prev_ghost_def)

lemma set_prev_ghost_inv: "ghost_inv (set_prev_ghost g i old) = ghost_inv g"
proof -
  have "world_ok (set_prev_ghost g i old) = world_ok g"
    by (rule static_world_ok) simp
  moreover have "pos_ok (set_prev_ghost g i old) = pos_ok g"
    by (simp add: pos_ok_def set_prev_ghost_def)
  moreover have "alive_ok (set_prev_ghost g i old) = alive_ok g"
    by (simp add: alive_ok_def set_prev_ghost_def)
  ultimately show ?thesis by (simp add: ghost_inv_def)
qed

lemma put_ghost_frame: "ghost_frame g (g\<lparr>ghosts := (ghosts g)[i := ghost]\<rparr>)"
  by (simp add: ghost_frame_def)

lemma put_ghost_inv:
  assumes "ghost_inv g" "is_valid_move g (obj_y ghost) (obj_x ghost)"
  shows "ghost_inv (g\<lparr>ghosts := (ghosts g)[i := ghost]\<rparr>)"
proof -
  let ?g1 = "g\<lparr>ghosts := (ghosts g)[i := ghost]\<rparr>"
  have "world_ok ?g1 = world_ok g"
    by (rule static_world_ok) simp
  moreover have "pos_ok ?g1"
    using assms set_update_subset_insert [of "ghosts g" i ghost]
    by (auto simp: ghost_inv_def pos_ok_def)
  moreover have "alive_ok ?g1"
    using assms(1) by (simp add: ghost_inv_def alive_ok_def)
  ultimately show ?thesis using assms(1) by (simp add: ghost_inv_def)
qed

lemma ghost_inv_eqI:
  assumes "ghost_inv g" "static g' = static g" "pacman g' = pacman g" "ghosts g' = ghosts g"
    and "alive_ok g'"
  shows "ghost_inv g'"
proof -
  have "world_ok g'"
    using assms(1) static_world_ok [OF assms(2)] by (simp add: ghost_inv_def)
  moreover have "pos_ok g'"
    using assms(1,3,4) static_fields(9,10) [OF assms(2)]
    by (simp add: ghost_inv_def pos_ok_def static_is_valid_move [OF assms(2)])
  ultimately show ?thesis using assms(5) by (simp add: ghost_inv_def)
qed

text \<open>Resets and collisions.\<close>

lemma reset_positions_frame:
  assumes "reset_positions g = Inr g'"
  shows "ghost_frame g g'"
  using assms
  by (auto simp: reset_positions_def Let_def ghost_frame_def split: option.splits)

lemma reset_positions_inv:
  assumes "ghost_inv g" "reset_positions g = Inr g'"
  shows "ghost_inv g'"
proof -
  obtain p where p: "pacman g = Some p"
    using assms(2) by (auto simp: reset_positions_def split: option.splits)
  have w: "world_ok g" and po: "pos_ok g" and al: "alive_ok g"
    using assms(1) by (simp_all add: ghost_inv_def)
  obtain s where s: "pacman_start g = Some s"
    using po p by (auto simp: pos_ok_def)
  have len: "length (ghost_starts g) = length (ghosts g)"
    using po by (simp add: pos_ok_def)
  have st: "static g' = static g"
    using assms(2) by (rule static_reset_positions)
  from reset_positions_Some [OF p] assms(2) s len
  have f: "lives g' = lives g" "game_over g' = game_over g"
    "length (ghosts g') = length (ghosts g)"
    "pacman g' = Some (p\<lparr>obj_y := fst s, obj_x := snd s, obj_dy := 0, obj_dx := 0,
        next_dy := 0, next_dx := 0\<rparr>)"
    "\<forall>j < length (ghosts g). ghosts g' ! j =
       (ghosts g ! j)\<lparr>obj_y := fst (ghost_starts g ! j), obj_x := snd (ghost_starts g ! j),
          obj_dy := 0, obj_dx := 0, frightened := False\<rparr>"
    by auto
  have w': "world_ok g'"
    using w static_world_ok [OF st] by simp
  have v: "\<And>y x. is_valid_move g' y x = is_valid_move g y x"
    by (rule static_is_valid_move [OF st])
  have "\<forall>ghost \<in> set (ghosts g'). is_valid_move g' (obj_y ghost) (obj_x ghost)"
  proof
    fix ghost assume "ghost \<in> set (ghosts g')"
    then obtain j where j: "j < length (ghosts g)" "ghost = ghosts g' ! j"
      using f(3) by (auto simp: in_set_conv_nth)
    then show "is_valid_move g' (obj_y ghost) (obj_x ghost)"
      using f(5) world_ok_valid(2) [OF w, of j] len by (simp add: v)
  qed
  then have po': "pos_ok g'"
    using f(3,4) len s world_ok_valid(1) [OF w s] static_fields(9,10) [OF st]
    by (simp add: pos_ok_def v)
  have "alive_ok g'"
    using al f(1,2,4) by (simp add: alive_ok_def)
  with w' po' show ?thesis by (simp add: ghost_inv_def)
qed

lemma handle_collision_frame:
  assumes "handle_collision g i = Inr g'" "i < length (ghosts g)"
  shows "ghost_frame g g'"
proof (cases "frightened (ghosts g ! i)")
  case True
  from handle_collision_frightened [OF assms(2) True] assms(1) show ?thesis
    by (auto simp: ghost_frame_def)
next
  case False
  then have "g' = g \<or> g' = g\<lparr>lives := lives g - 1, game_over := True\<rparr> \<or>
      reset_positions (g\<lparr>lives := lives g - 1\<rparr>) = Inr g'"
    using assms(1) by (auto simp: handle_collision_def Let_def split: if_splits)
  then show ?thesis
    using reset_positions_frame [of "g\<lparr>lives := lives g - 1\<rparr>" g']
    by (auto simp: ghost_frame_def)
qed

lemma handle_collision_inv:
  assumes "ghost_inv g" "handle_collision g i = Inr g'" "i < length (ghosts g)"
    and "pacman g \<noteq> None"
  shows "ghost_inv g'"
proof (cases "frightened (ghosts g ! i)")
  case True
  have w: "world_ok g" and po: "pos_ok g" and al: "alive_ok g"
    using assms(1) by (simp_all add: ghost_inv_def)
  have len: "i < length (ghost_starts g)"
    using po assms(3) by (simp add: pos_ok_def)
  let ?gh = "(ghosts g ! i)\<lparr>obj_y := fst (ghost_starts g ! i),
      obj_x := snd (ghost_starts g ! i), frightened := False, obj_dy := 0, obj_dx := 0\<rparr>"
  have "is_valid_move g (obj_y ?gh) (obj_x ?gh)"
    using world_ok_valid(2) [OF w len] by simp
  from put_ghost_inv [OF assms(1) this, of i]
  have "ghost_inv (g\<lparr>ghosts := (ghosts g)[i := ?gh]\<rparr>)" .
  then have "ghost_inv (g\<lparr>ghosts := (ghosts g)[i := ?gh], score := score g + 200,
      prev_ghost_positions := prev_ghost_positions g'\<rparr>)"
    by (rule ghost_inv_eqI) (use al in \<open>simp_all add: alive_ok_def\<close>)
  moreover have "g' = g\<lparr>ghosts := (ghosts g)[i := ?gh], score := score g + 200,
      prev_ghost_positions := prev_ghost_positions g'\<rparr>"
    using handle_collision_frightened [OF assms(3) True] assms(2) len by auto
  ultimately show ?thesis by simp
next
  case False
  consider "g' = g" | "lives g = 1" "g' = g\<lparr>lives := lives g - 1, game_over := True\<rparr>"
    | "1 < lives g" "reset_positions (g\<lparr>lives := lives g - 1\<rparr>) = Inr g'"
    using assms(2) False by (auto simp: handle_collision_def Let_def split: if_splits)
  then show ?thesis
  proof cases
    case 1
    then show ?thesis using assms(1) by simp
  next
    case 2
    have "ghost_inv (g\<lparr>lives := lives g - 1, game_over := True\<rparr>)"
      using assms(1) by (rule ghost_inv_eqI) (use assms(4) in \<open>simp_all add: alive_ok_def\<close>)
    then show ?thesis using 2 by simp
  next
    case 3
    have "alive_ok g" using assms(1) by (simp add: ghost_inv_def)
    then have "alive_ok (g\<lparr>lives := lives g - 1\<rparr>)"
      using 3(1) by (simp add: alive_ok_def)
    then have "ghost_inv (g\<lparr>lives := lives g - 1\<rparr>)"
      by (intro ghost_inv_eqI [OF assms(1)]) simp_all
    then show ?thesis using 3(2) by (rule reset_positions_inv)
  qed
qed

lemma rest_ok_frame:
  assumes "ghost_frame g g'" "rest_ok g"
  shows "rest_ok g'"
  using assms
  by (simp add: ghost_frame_def kept_def static_def rest_ok_def coll_ok_def)

lemma move_ghost_frame:
  assumes "move_ghost i r g = Inr (g', b)" "i < length (ghosts g)"
  shows "ghost_frame g g'"
  using assms(1)
proof (cases rule: move_ghost_cases)
  case (warp w)
  then show ?thesis
    using ghost_frame_trans [OF put_ghost_frame set_prev_ghost_frame] by simp
next
  case (warp_hit w)
  show ?thesis
    by (rule ghost_frame_trans [OF ghost_frame_trans [OF put_ghost_frame set_prev_ghost_frame]
          handle_collision_frame [OF warp_hit(3)]])
      (use assms(2) in \<open>simp add: set_prev_ghost_fields\<close>)
next
  case step
  then show ?thesis
    using ghost_frame_trans [OF put_ghost_frame set_prev_ghost_frame] by simp
next
  case (step_hit g2)
  have "ghost_frame g g2"
    by (rule ghost_frame_trans [OF put_ghost_frame handle_collision_frame [OF step_hit(3)]])
      (use assms(2) in simp)
  then show ?thesis
    using step_hit(4) ghost_frame_trans [OF _ set_prev_ghost_frame] by auto
next
  case blocked
  then show ?thesis
    using ghost_frame_trans [OF put_ghost_frame set_prev_ghost_frame] by simp
qed

lemma move_ghost_inv:
  assumes "ghost_inv g" "move_ghost i r g = Inr (g', b)" "i < length (ghosts g)"
  shows "ghost_inv g'"
proof -
  have w: "world_ok g" and po: "pos_ok g"
    using assms(1) by (simp_all add: ghost_inv_def)
  have here: "is_valid_move g (obj_y (ghosts g ! i)) (obj_x (ghosts g ! i))"
    using po assms(3) by (simp add: pos_ok_def)
  from assms(2) show ?thesis
  proof (cases rule: move_ghost_cases)
    case (warp w')
    have "is_valid_move g (fst w') (snd w')"
      using world_ok_valid(3) [OF w warp(1)] .
    then show ?thesis
      using warp(2) put_ghost_inv [OF assms(1)] by (simp add: set_prev_ghost_inv)
  next
    case (warp_hit w')
    have "is_valid_move g (fst w') (snd w')"
      using world_ok_valid(3) [OF w warp_hit(1)] .
    then have "ghost_inv (set_prev_ghost
        (g\<lparr>ghosts := (ghosts g)[i := (choose_direction g (ghosts g ! i) r)
            \<lparr>obj_y := fst w', obj_x := snd w'\<rparr>]\<rparr>) i
        (obj_y (ghosts g ! i), obj_x (ghosts g ! i)))"
      using put_ghost_inv [OF assms(1)] by (simp add: set_prev_ghost_inv)
    then show ?thesis
      by (rule handle_collision_inv [OF _ warp_hit(3)])
        (use assms(3) warp_hit(2) in \<open>simp_all add: set_prev_ghost_fields\<close>)
  next
    case step
    then show ?thesis
      using put_ghost_inv [OF assms(1)] by (simp add: set_prev_ghost_inv)
  next
    case (step_hit g2)
    have "ghost_inv (g\<lparr>ghosts := (ghosts g)[i := (choose_direction g (ghosts g ! i) r)
            \<lparr>obj_y := obj_y (choose_direction g (ghosts g ! i) r) +
                        obj_dy (choose_direction g (ghosts g ! i) r),
              obj_x := obj_x (choose_direction g (ghosts g ! i) r) +
                        obj_dx (choose_direction g (ghosts g ! i) r)\<rparr>]\<rparr>)"
      using put_ghost_inv [OF assms(1)] step_hit(1) by simp
    then have "ghost_inv g2"
      by (rule handle_collision_inv [OF _ step_hit(3)]) (use assms(3) step_hit(2) in simp_all)
    then show ?thesis
      using step_hit(4) by (simp add: set_prev_ghost_inv)
  next
    case blocked
    then show ?thesis
      using put_ghost_inv [OF assms(1)] here by (simp add: set_prev_ghost_inv)
  qed
qed

lemma move_ghosts_loop_inv:
  assumes "ghost_inv g" "\<forall>i \<in> set is. i < length (ghosts g)"
    and "move_ghosts_loop rnd is g = Inr g'"
  shows "ghost_inv g' \<and> ghost_frame g g'"
  using assms
proof (induction "is" arbitrary: g)
  case Nil
  then show ?case by (simp add: ghost_frame_refl)
next
  case (Cons i "is")
  from Cons.prems(3) obtain g1 b where
    st: "move_ghost i (rnd i) g = Inr (g1, b)"
    and rest: "if b then g' = g1 else move_ghosts_loop rnd is g1 = Inr g'"
    by (auto split: sum.splits if_splits)
  have i: "i < length (ghosts g)" using Cons.prems(2) by simp
  have f1: "ghost_frame g g1" using st i by (rule move_ghost_frame)
  have i1: "ghost_inv g1" using Cons.prems(1) st i by (rule move_ghost_inv)
  show ?case
  proof (cases b)
    case True
    then show ?thesis using rest f1 i1 by simp
  next
    case False
    have "\<forall>j \<in> set is. j < length (ghosts g1)"
      using Cons.prems(2) f1 by (simp add: ghost_frame_def)
    from Cons.IH [OF i1 this] rest False
    have "ghost_inv g' \<and> ghost_frame g1 g'" by simp
    then show ?thesis using f1 ghost_frame_trans by blast
  qed
qed

lemma before_ghosts_frame: "ghost_frame g (update_fruit (expire_power_mode g t) t)"
  by (simp add: ghost_frame_def update_fruit_def expire_power_mode_def)

lemma before_ghosts_inv:
  assumes "ghost_inv g"
  shows "ghost_inv (update_fruit (expire_power_mode g t) t)"
proof -
  have "world_ok (update_fruit (expire_power_mode g t) t)"
    using assms static_world_ok [of "update_fruit (expire_power_mode g t) t" g]
    by (simp add: ghost_inv_def)
  moreover have "pos_ok (update_fruit (expire_power_mode g t) t)"
    using assms
    by (auto simp: ghost_inv_def pos_ok_def update_fruit_def expire_power_mode_def)
  moreover have "alive_ok (update_fruit (expire_power_mode g t) t)"
    using assms
    by (auto simp: ghost_inv_def alive_ok_def update_fruit_def expire_power_mode_def)
  ultimately show ?thesis by (simp add: ghost_inv_def)
qed

lemma move_ghosts_inv:
  assumes "ghost_inv g" "move_ghosts g t rnd = Inr g'"
  shows "ghost_inv g' \<and> ghost_frame g g'"
proof -
  let ?g1 = "update_fruit (expire_power_mode g t) t"
  have l: "move_ghosts_loop rnd [0..<length (ghosts ?g1)] ?g1 = Inr g'"
    using assms(2) by (simp add: move_ghosts_def Let_def)
  have "ghost_inv g' \<and> ghost_frame ?g1 g'"
    by (rule move_ghosts_loop_inv [OF before_ghosts_inv [OF assms(1)] _ l]) simp
  then show ?thesis
    using ghost_frame_trans [OF before_ghosts_frame] by blast
qed

lemma check_collisions_inv:
  assumes "ghost_inv g" "check_collisions g = Inr g'"
  shows "ghost_inv g' \<and> ghost_frame g g'"
proof (cases "pacman g")
  case None
  then show ?thesis
    using assms by (simp add: check_collisions_def ghost_frame_refl)
next
  case (Some p)
  have "\<And>is. \<forall>i \<in> set is. i < length (ghosts g) \<Longrightarrow>
      check_collisions_loop is g p = Inr g' \<Longrightarrow> ghost_inv g' \<and> ghost_frame g g'"
  proof -
    fix "is" :: "nat list"
    show "\<forall>i \<in> set is. i < length (ghosts g) \<Longrightarrow>
      check_collisions_loop is g p = Inr g' \<Longrightarrow> ghost_inv g' \<and> ghost_frame g g'"
    proof (induction "is")
      case Nil
      then show ?case using assms(1) by (simp add: ghost_frame_refl)
    next
      case (Cons i "is")
      show ?case
      proof (cases "obj_y (ghosts g ! i) = obj_y p \<and> obj_x (ghosts g ! i) = obj_x p")
        case True
        then have h: "handle_collision g i = Inr g'" using Cons.prems(2) by simp
        have i: "i < length (ghosts g)" using Cons.prems(1) by simp
        show ?thesis
          using handle_collision_inv [OF assms(1) h i] handle_collision_frame [OF h i] Some
          by simp
      next
        case False
        then have "check_collisions_loop is g p = Inr g'"
          using Cons.prems(2) by auto
        then show ?thesis using Cons.IH Cons.prems(1) by simp
      qed
    qed
  qed
  from this [of "[0..<length (ghosts g)]"] show ?thesis
    using assms(2) Some by (simp add: check_collisions_def)
qed

lemma pickup_frame_refl: "pickup_frame g g"
  by (simp add: pickup_frame_def)

lemma pickup_frame_trans: "pickup_frame g g1 \<Longrightarrow> pickup_frame g1 g2 \<Longrightarrow> pickup_frame g g2"
  by (simp add: pickup_frame_def)

lemma pickup_frame_simple:
  "pickup_frame g (check_extra_life g)"
  "pickup_frame g (spawn_fruit g t)"
  "pickup_frame g (check_win g)"
  "pickup_frame g (eat_fruit g pos)"
  by (simp_all add: pickup_frame_def check_extra_life_def spawn_fruit_def check_win_def
      eat_fruit_def)

lemma pickup_frame_fruit_triggers: "pickup_frame g (fruit_triggers g t)"
  by (simp add: pickup_frame_def fruit_triggers_def spawn_fruit_def)

lemma pickup_frame_eat_pellet: "pickup_frame g (eat_pellet g pos t)"
proof (cases "pos \<in> pellets g")
  case True
  let ?g1 = "g\<lparr>pellets := pellets g - {pos}, score := score g + 10,
              pellets_remaining := pellets_remaining g - 1, dots_eaten := dots_eaten g + 1\<rparr>"
  have "pickup_frame g ?g1" by (simp add: pickup_frame_def)
  then have "pickup_frame g (fruit_triggers (check_extra_life ?g1) t)"
    by (rule pickup_frame_trans
          [OF pickup_frame_trans [OF _ pickup_frame_simple(1)] pickup_frame_fruit_triggers])
  then show ?thesis using True by (simp add: eat_pellet_def)
next
  case False
  then show ?thesis by (simp add: eat_pellet_def pickup_frame_refl)
qed

lemma pickup_frame_eat_power_pill: "pickup_frame g (eat_power_pill g pos t)"
proof (cases "pos \<in> power_pills g")
  case True
  let ?g1 = "g\<lparr>power_pills := power_pills g - {pos}, score := score g + 50,
              pellets_remaining := pellets_remaining g - 1, dots_eaten := dots_eaten g + 1\<rparr>"
  let ?g2 = "fruit_triggers (check_extra_life ?g1) t"
  have "pickup_frame g ?g1" by (simp add: pickup_frame_def)
  then have "pickup_frame g ?g2"
    by (rule pickup_frame_trans
          [OF pickup_frame_trans [OF _ pickup_frame_simple(1)] pickup_frame_fruit_triggers])
  moreover have "pickup_frame ?g2
      (?g2\<lparr>power_mode_time := t,
            ghosts := map (\<lambda>ghost. ghost\<lparr>frightened := True\<rparr>) (ghosts ?g2)\<rparr>)"
    by (simp add: pickup_frame_def comp_def)
  ultimately have "pickup_frame g
      (?g2\<lparr>power_mode_time := t,
            ghosts := map (\<lambda>ghost. ghost\<lparr>frightened := True\<rparr>) (ghosts ?g2)\<rparr>)"
    by (rule pickup_frame_trans)
  then show ?thesis
    using True by (simp add: eat_power_pill_def Let_def)
next
  case False
  then show ?thesis by (simp add: eat_power_pill_def pickup_frame_refl)
qed

lemma pickup_frame_collect:
  "pickup_frame (g\<lparr>pacman := Some p, prev_pacman_pos := Some old\<rparr>) (collect g p old t)"
  unfolding collect_def Let_def
  by (rule pickup_frame_trans [OF pickup_frame_trans [OF pickup_frame_trans
        [OF pickup_frame_eat_pellet pickup_frame_eat_power_pill] pickup_frame_simple(4)]
        pickup_frame_simple(3)])

lemma ghost_inv_pickup:
  assumes "ghost_inv g" "pickup_frame g g'"
  shows "ghost_inv g'"
proof -
  have st: "static g' = static g" and pm: "pacman g' = pacman g"
    and gp: "map (\<lambda>ghost. (obj_y ghost, obj_x ghost)) (ghosts g') =
       map (\<lambda>ghost. (obj_y ghost, obj_x ghost)) (ghosts g)"
    using assms(2) by (simp_all add: pickup_frame_def)
  have w: "world_ok g'"
    using assms(1) static_world_ok [OF st] by (simp add: ghost_inv_def)
  have po: "pos_ok g" using assms(1) by (simp add: ghost_inv_def)
  have len: "length (ghosts g') = length (ghosts g)"
    using arg_cong [OF gp, of length] by simp
  have "\<forall>ghost \<in> set (ghosts g'). is_valid_move g' (obj_y ghost) (obj_x ghost)"
  proof
    fix ghost assume "ghost \<in> set (ghosts g')"
    then have "(obj_y ghost, obj_x ghost) \<in>
        set (map (\<lambda>ghost. (obj_y ghost, obj_x ghost)) (ghosts g'))"
      by simp
    then have "(obj_y ghost, obj_x ghost) \<in>
        set (map (\<lambda>ghost. (obj_y ghost, obj_x ghost)) (ghosts g))"
      by (simp only: gp)
    then obtain gh where "gh \<in> set (ghosts g)" "obj_y gh = obj_y ghost" "obj_x gh = obj_x ghost"
      by auto
    then show "is_valid_move g' (obj_y ghost) (obj_x ghost)"
      using po by (auto simp: pos_ok_def static_is_valid_move [OF st])
  qed
  then have "pos_ok g'"
    using po pm len static_fields(9,10) [OF st]
    by (simp add: pos_ok_def static_is_valid_move [OF st])
  moreover have "alive_ok g'"
    using assms by (auto simp: ghost_inv_def alive_ok_def pickup_frame_def)
  ultimately show ?thesis using w by (simp add: ghost_inv_def)
qed

lemma put_pacman_inv:
  assumes "ghost_inv g" "pacman g \<noteq> None" "is_valid_move g (obj_y p) (obj_x p)"
  shows "ghost_inv (g\<lparr>pacman := Some p, prev_pacman_pos := old\<rparr>)"
proof -
  let ?g1 = "g\<lparr>pacman := Some p, prev_pacman_pos := old\<rparr>"
  have "world_ok ?g1 = world_ok g"
    by (rule static_world_ok) simp
  moreover have "pos_ok ?g1"
    using assms by (auto simp: ghost_inv_def pos_ok_def)
  moreover have "alive_ok ?g1"
    using assms(1) by (simp add: ghost_inv_def alive_ok_def)
  ultimately show ?thesis using assms(1) by (simp add: ghost_inv_def)
qed

lemma position_try_turn [simp]:
  "obj_y (try_turn g p) = obj_y p" "obj_x (try_turn g p) = obj_x p"
  by (simp_all add: try_turn_def)

lemma move_pacman_ghost_inv:
  assumes "ghost_inv g"
  shows "ghost_inv (move_pacman g t)"
proof (cases "pacman g")
  case None
  then show ?thesis using assms by (simp add: move_pacman_def)
next
  case (Some p0)
  have w: "world_ok g" and po: "pos_ok g"
    using assms by (simp_all add: ghost_inv_def)
  have here: "is_valid_move g (obj_y p0) (obj_x p0)"
    using po Some by (simp add: pos_ok_def)
  have ne: "pacman g \<noteq> None" using Some by simp
  let ?p = "try_turn g p0"
  have col: "\<And>p'. is_valid_move g (obj_y p') (obj_x p') \<Longrightarrow>
      ghost_inv (collect g p' (obj_y p0, obj_x p0) t)"
    using ghost_inv_pickup [OF put_pacman_inv [OF assms ne] pickup_frame_collect] .
  show ?thesis
  proof (cases "obj_dy ?p \<noteq> 0 \<or> obj_dx ?p \<noteq> 0")
    case False
    then show ?thesis
      using Some col [of ?p] here by (simp add: move_pacman_def Let_def)
  next
    case moving: True
    show ?thesis
    proof (cases "warp_target g (obj_y ?p) (obj_x ?p) (obj_dx ?p)")
      case (Some w')
      have "is_valid_move g (fst w') (snd w')"
        using world_ok_valid(3) [OF w Some] .
      then have "ghost_inv (g\<lparr>pacman := Some (?p\<lparr>obj_y := fst w', obj_x := snd w'\<rparr>),
          prev_pacman_pos := Some (obj_y p0, obj_x p0)\<rparr>)"
        by (intro put_pacman_inv [OF assms ne]) simp
      then show ?thesis
        using \<open>pacman g = Some p0\<close> moving Some by (simp add: move_pacman_def Let_def)
    next
      case None
      show ?thesis
      proof (cases "is_valid_move g (obj_y ?p + obj_dy ?p) (obj_x ?p + obj_dx ?p)")
        case True
        then show ?thesis
          using \<open>pacman g = Some p0\<close> moving None
            col [of "?p\<lparr>obj_y := obj_y ?p + obj_dy ?p, obj_x := obj_x ?p + obj_dx ?p\<rparr>"]
          by (simp add: move_pacman_def Let_def)
      next
        case False
        then show ?thesis
          using \<open>pacman g = Some p0\<close> moving None here
            col [of "?p\<lparr>obj_dy := 0, obj_dx := 0\<rparr>"]
          by (simp add: move_pacman_def Let_def)
      qed
    qed
  qed
qed

lemma card_remove_int:
  assumes "finite A" "p \<in> A"
  shows "int (card (A - {p})) = int (card A) - 1"
proof -
  have "card (A - {p}) = card A - 1"
    using assms by (simp add: card_Diff_singleton)
  moreover have "0 < card A"
    using assms by (auto simp: card_gt_0_iff)
  ultimately show ?thesis
    by (cases "card A") simp_all
qed

lemma rest_ok_simple:
  assumes "rest_ok g"
  shows "rest_ok (check_extra_life g)" "rest_ok (spawn_fruit g t)" "rest_ok (eat_fruit g pos)"
    "pacman g \<noteq> None \<Longrightarrow> rest_ok (check_win g)"
  using assms
  by (simp_all add: rest_ok_def coll_ok_def check_extra_life_def spawn_fruit_def eat_fruit_def
      check_win_def)

lemma rest_ok_fruit_triggers:
  assumes "rest_ok g"
  shows "rest_ok (fruit_triggers g t)"
  using assms
  by (auto simp: rest_ok_def coll_ok_def fruit_triggers_def spawn_fruit_def)

lemma rest_ok_eat_pellet:
  assumes "rest_ok g"
  shows "rest_ok (eat_pellet g pos t)"
proof (cases "pos \<in> pellets g")
  case True
  have fin: "finite (pellets g)"
    using assms by (auto simp: rest_ok_def coll_ok_def intro: finite_subset)
  have "rest_ok (g\<lparr>pellets := pellets g - {pos}, score := score g + 10,
      pellets_remaining := pellets_remaining g - 1, dots_eaten := dots_eaten g + 1\<rparr>)"
    using assms True card_remove_int [OF fin True]
    by (auto simp: rest_ok_def coll_ok_def)
  then show ?thesis
    using True rest_ok_fruit_triggers rest_ok_simple(1) by (simp add: eat_pellet_def)
next
  case False
  then show ?thesis using assms by (simp add: eat_pellet_def)
qed

lemma rest_ok_eat_power_pill:
  assumes "rest_ok g"
  shows "rest_ok (eat_power_pill g pos t)"
proof (cases "pos \<in> power_pills g")
  case True
  have fin: "finite (power_pills g)"
    using assms by (auto simp: rest_ok_def coll_ok_def intro: finite_subset)
  let ?g1 = "g\<lparr>power_pills := power_pills g - {pos}, score := score g + 50,
      pellets_remaining := pellets_remaining g - 1, dots_eaten := dots_eaten g + 1\<rparr>"
  let ?g2 = "fruit_triggers (check_extra_life ?g1) t"
  have "rest_ok ?g1"
    using assms True card_remove_int [OF fin True]
    by (auto simp: rest_ok_def coll_ok_def)
  then have "rest_ok ?g2"
    using rest_ok_fruit_triggers rest_ok_simple(1) by simp
  then have "rest_ok (?g2\<lparr>power_mode_time := t,
      ghosts := map (\<lambda>ghost. ghost\<lparr>frightened := True\<rparr>) (ghosts ?g2)\<rparr>)"
    by (simp add: rest_ok_def coll_ok_def)
  then show ?thesis
    using True by (simp add: eat_power_pill_def Let_def)
next
  case False
  then show ?thesis using assms by (simp add: eat_power_pill_def)
qed

lemma pickup_frame_pacman: "pickup_frame g g' \<Longrightarrow> pacman g' = pacman g"
  by (simp add: pickup_frame_def)

lemma rest_ok_collect:
  assumes "rest_ok g"
  shows "rest_ok (collect g p old t)"
proof -
  let ?g1 = "g\<lparr>pacman := Some p, prev_pacman_pos := Some old\<rparr>"
  let ?pos = "(obj_y p, obj_x p)"
  let ?g4 = "eat_fruit (eat_power_pill (eat_pellet ?g1 ?pos t) ?pos t) ?pos"
  have "rest_ok ?g1"
    using assms by (simp add: rest_ok_def coll_ok_def)
  then have r: "rest_ok ?g4"
    by (intro rest_ok_simple(3) rest_ok_eat_power_pill rest_ok_eat_pellet)
  have "pickup_frame ?g1 ?g4"
    by (rule pickup_frame_trans [OF pickup_frame_trans
          [OF pickup_frame_eat_pellet pickup_frame_eat_power_pill] pickup_frame_simple(4)])
  then have "pacman ?g4 \<noteq> None"
    using pickup_frame_pacman by fastforce
  then show ?thesis
    unfolding collect_def Let_def using r by (rule rest_ok_simple(4) [rotated])
qed

lemma move_pacman_rest_ok:
  assumes "rest_ok g"
  shows "rest_ok (move_pacman g t)"
proof (cases "pacman g")
  case None
  then show ?thesis using assms by (simp add: move_pacman_def)
next
  case (Some p0)
  have "\<And>p' old. rest_ok (g\<lparr>pacman := Some p', prev_pacman_pos := old\<rparr>)"
    using assms by (simp add: rest_ok_def coll_ok_def)
  then show ?thesis
    using Some rest_ok_collect [OF assms]
    by (simp add: move_pacman_def Let_def split: option.split)
qed

lemma update_game_inv:
  assumes "game_inv g" "update_game g t rnd = Inr g'"
  shows "game_inv g'"
proof -
  from assms(2) obtain g2 where
    mg: "move_ghosts (move_pacman g t) t rnd = Inr g2" and cc: "check_collisions g2 = Inr g'"
    by (auto simp: update_game_def split: sum.splits)
  have g1: "ghost_inv (move_pacman g t)" "rest_ok (move_pacman g t)"
    using assms(1) move_pacman_ghost_inv move_pacman_rest_ok by (simp_all add: game_inv_def)
  from move_ghosts_inv [OF g1(1) mg] have g2: "ghost_inv g2" "ghost_frame (move_pacman g t) g2"
    by simp_all
  from check_collisions_inv [OF g2(1) cc] have g3: "ghost_inv g'" "ghost_frame g2 g'"
    by simp_all
  have "rest_ok g'"
    using rest_ok_frame [OF g3(2) rest_ok_frame [OF g2(2) g1(2)]] .
  with g3(1) show ?thesis by (simp add: game_inv_def)
qed

lemma parse_cell_scalars: "scalars (parse_cell y x g) = scalars g"
  by (simp add: parse_cell_def scalars_def Let_def)

lemma fold_parse_cell_scalars: "scalars (fold (parse_cell y) xs g) = scalars g"
  by (induction xs arbitrary: g) (simp_all add: parse_cell_scalars)

lemma fold_parse_row_scalars: "scalars (fold parse_row ys g) = scalars g"
  by (induction ys arbitrary: g) (simp_all add: parse_row_def fold_parse_cell_scalars)

lemma init_game_scalars: "scalars (init_game src) = scalars fresh_game"
proof -
  have "scalars (init_game src) = scalars (load_map fresh_game src)"
    unfolding init_game_def parse_map_def Let_def
    using fold_parse_row_scalars [of _ "load_map fresh_game src"]
    by (simp add: scalars_def)
  then show ?thesis
    by (simp add: scalars_def load_map_def Let_def)
qed

lemma init_game_fields:
  "lives (init_game src) = 3" "\<not> game_over (init_game src)" "\<not> won (init_game src)"
  "speed (init_game src) = 0.15" "\<not> fruit_triggered_70 (init_game src)"
  "\<not> fruit_triggered_170 (init_game src)" "dots_eaten (init_game src) = 0"
  "score (init_game src) = 0" "level (init_game src) = 1"
  "\<not> extra_life_awarded (init_game src)" "\<not> fruit_active (init_game src)"
  using init_game_scalars [of src] by (simp_all add: scalars_def fresh_game_def)

lemma init_game_count:
  "pellets_remaining (init_game src) =
     int (card (pellets (init_game src))) + int (card (power_pills (init_game src)))"
  by (simp add: init_game_def parse_map_def Let_def)

lemma cell_in_bounds:
  "cell g p = Some c \<Longrightarrow> p \<in> {0..<height g} \<times> {0..<width g}"
  by (cases p) (auto simp: cell_def cell_of_def split: if_splits)

lemma world_ok_finite:
  assumes "world_ok g"
  shows "finite (initial_pellets g)" "finite (initial_power_pills g)"
proof -
  have "initial_pellets g \<subseteq> {0..<height g} \<times> {0..<width g}"
    using assms cell_in_bounds by (fastforce simp: world_ok_def)
  then show "finite (initial_pellets g)"
    by (rule finite_subset) simp
  have "initial_power_pills g \<subseteq> {0..<height g} \<times> {0..<width g}"
    using assms cell_in_bounds by (fastforce simp: world_ok_def)
  then show "finite (initial_power_pills g)"
    by (rule finite_subset) simp
qed

lemma parsed_ok_pos_ok:
  assumes "parsed_ok g"
  shows "pos_ok g"
proof -
  have w: "world_ok g" using assms by (simp add: parsed_ok_def)
  have ps: "pacman_start g = map_option (\<lambda>p. (obj_y p, obj_x p)) (pacman g)"
    and gs: "ghost_starts g = map (\<lambda>gh. (obj_y gh, obj_x gh)) (ghosts g)"
    using assms by (simp_all add: parsed_ok_def)
  have 1: "\<forall>p. pacman g = Some p \<longrightarrow> is_valid_move g (obj_y p) (obj_x p)"
    using world_ok_valid(1) [OF w] ps by auto
  have 2: "\<forall>ghost \<in> set (ghosts g). is_valid_move g (obj_y ghost) (obj_x ghost)"
  proof
    fix ghost assume "ghost \<in> set (ghosts g)"
    then obtain j where j: "j < length (ghosts g)" "ghost = ghosts g ! j"
      by (auto simp: in_set_conv_nth)
    then have "j < length (ghost_starts g)" "ghost_starts g ! j = (obj_y ghost, obj_x ghost)"
      using gs by simp_all
    then show "is_valid_move g (obj_y ghost) (obj_x ghost)"
      using world_ok_valid(2) [OF w, of j] by simp
  qed
  have 3: "length (ghost_starts g) = length (ghosts g)"
    using gs by simp
  have 4: "(pacman g = None) = (pacman_start g = None)"
    using ps by simp
  from 1 2 3 4 show ?thesis by (simp add: pos_ok_def)
qed

lemma init_game_inv: "game_inv (init_game src)"
proof -
  have p: "parsed_ok (init_game src)" by (rule init_game_parsed_ok)
  then have w: "world_ok (init_game src)" by (simp add: parsed_ok_def)
  have "alive_ok (init_game src)"
    by (simp add: alive_ok_def init_game_fields)
  then have gi: "ghost_inv (init_game src)"
    using w parsed_ok_pos_ok [OF p] by (simp add: ghost_inv_def)
  have "coll_ok (init_game src)"
    using p world_ok_finite [OF w] init_game_count [of src]
    by (simp add: coll_ok_def parsed_ok_def)
  then have "rest_ok (init_game src)"
    by (simp add: rest_ok_def init_game_fields)
  with gi show ?thesis by (simp add: game_inv_def)
qed

text \<open>Keys.\<close>

lemma set_intent_inv:
  assumes "game_inv g" "set_intent g dy dx = Inr g'"
  shows "game_inv g'"
proof -
  from assms(2) obtain p where p: "pacman g = Some p"
    and g': "g' = g\<lparr>pacman := Some (p\<lparr>next_dy := dy, next_dx := dx\<rparr>)\<rparr>"
    by (auto simp: set_intent_def split: option.splits)
  have gi: "ghost_inv g" and ro: "rest_ok g"
    using assms(1) by (simp_all add: game_inv_def)
  have "is_valid_move g (obj_y p) (obj_x p)"
    using gi p by (simp add: ghost_inv_def pos_ok_def)
  then have "ghost_inv (g\<lparr>pacman := Some (p\<lparr>next_dy := dy, next_dx := dx\<rparr>),
      prev_pacman_pos := prev_pacman_pos g\<rparr>)"
    using p by (intro put_pacman_inv [OF gi]) simp_all
  then have "ghost_inv g'" using g' by simp
  moreover have "rest_ok g'"
    using ro g' by (simp add: rest_ok_def coll_ok_def)
  ultimately show ?thesis by (simp add: game_inv_def)
qed

lemma restart_inv:
  assumes "game_inv g" "static g1 = static g" "pacman g1 = pacman g" "ghosts g1 = ghosts g"
    and "alive_ok g1" "pellets g1 = initial_pellets g" "power_pills g1 = initial_power_pills g"
    and "pellets_remaining g1 =
      int (card (initial_pellets g)) + int (card (initial_power_pills g))"
    and "fruit g1 = (case initial_fruit g of Some f \<Rightarrow> Some f | None \<Rightarrow> fruit g)"
    and "\<not> won g1" "\<not> fruit_triggered_70 g1" "\<not> fruit_triggered_170 g1" "0.08 \<le> speed g1"
    and "reset_positions g1 = Inr g2"
  shows "ghost_inv g2 \<and> rest_ok g2 \<and> ghost_frame g1 g2"
proof -
  have gi: "ghost_inv g" and ro: "rest_ok g"
    using assms(1) by (simp_all add: game_inv_def)
  have "ghost_inv g1"
    using gi assms(2,3,4,5) by (rule ghost_inv_eqI)
  then have 1: "ghost_inv g2"
    using assms(14) by (rule reset_positions_inv)
  have f: "fruit g1 = initial_fruit g"
    using ro assms(9) by (auto simp: rest_ok_def coll_ok_def split: option.splits)
  have "rest_ok g1"
    using ro assms(6,7,8,10,11,12,13) f static_fields(4,5,6) [OF assms(2)]
    by (simp add: rest_ok_def coll_ok_def)
  then have 2: "rest_ok g2"
    using rest_ok_frame [OF reset_positions_frame [OF assms(14)]] by simp
  from 1 2 reset_positions_frame [OF assms(14)] show ?thesis by simp
qed

lemma next_level_inv:
  assumes "game_inv g" "next_level g = Inr g'"
  shows "game_inv g'"
proof -
  let ?g1 = "g\<lparr>level := level g + 1, won := False, power_mode_time := 0,
                fruit_spawn_time := 0, fruit_active := False, dots_eaten := 0,
                fruit_triggered_70 := False, fruit_triggered_170 := False,
                pellets := initial_pellets g, power_pills := initial_power_pills g,
                pellets_remaining :=
                  int (card (initial_pellets g)) + int (card (initial_power_pills g)),
                fruit := (case initial_fruit g of Some f \<Rightarrow> Some f | None \<Rightarrow> fruit g)\<rparr>"
  from assms(2) obtain g2 where r: "reset_positions ?g1 = Inr g2"
    and g': "g' = g2\<lparr>speed := max 0.08 (speed g2 - 0.01)\<rparr>"
    by (auto simp: next_level_def Let_def split: sum.splits)
  have al: "alive_ok ?g1" and sp: "0.08 \<le> speed ?g1"
    using assms(1) by (simp_all add: game_inv_def ghost_inv_def alive_ok_def rest_ok_def)
  have "ghost_inv g2 \<and> rest_ok g2 \<and> ghost_frame ?g1 g2"
    by (rule restart_inv [OF assms(1) _ _ _ al _ _ _ _ _ _ _ sp r]) simp_all
  then have gi: "ghost_inv g2" and ro: "rest_ok g2" by simp_all
  have "ghost_inv g'"
    unfolding g' using gi
    by (rule ghost_inv_eqI) (use gi in \<open>simp_all add: ghost_inv_def alive_ok_def\<close>)
  moreover have "rest_ok g'"
    unfolding g' using ro by (simp add: rest_ok_def coll_ok_def)
  ultimately show ?thesis by (simp add: game_inv_def)
qed

lemma reset_game_inv:
  assumes "game_inv g" "reset_game g = Inr g'"
  shows "game_inv g'"
proof -
  let ?g1 = "g\<lparr>score := 0, lives := 3, game_over := False, won := False, power_mode_time := 0,
         level := 1, extra_life_awarded := False,
         fruit_spawn_time := 0, fruit_active := False, dots_eaten := 0,
         fruit_triggered_70 := False, fruit_triggered_170 := False,
         pellets := initial_pellets g, power_pills := initial_power_pills g,
         pellets_remaining :=
           int (card (initial_pellets g)) + int (card (initial_power_pills g)),
         fruit := (case initial_fruit g of Some f \<Rightarrow> Some f | None \<Rightarrow> fruit g),
         speed := 0.15, prev_pacman_pos := None,
         prev_ghost_positions := replicate (length (ghosts g)) None\<rparr>"
  have r: "reset_positions ?g1 = Inr g'"
    using assms(2) by (simp add: reset_game_def)
  have al: "alive_ok ?g1" by (simp add: alive_ok_def)
  have "ghost_inv g' \<and> rest_ok g' \<and> ghost_frame ?g1 g'"
    by (rule restart_inv [OF assms(1) _ _ _ al _ _ _ _ _ _ _ _ r]) simp_all
  then show ?thesis by (simp add: game_inv_def)
qed

lemma handle_key_cases:
  assumes "handle_key g k = Inr g'"
  shows "g' = g \<or> reset_game g = Inr g' \<or> next_level g = Inr g' \<or>
     (\<exists>dy dx. set_intent g dy dx = Inr g')"
proof (cases k)
  case KeyQuit
  then show ?thesis using assms by simp
next
  case KeyReset
  then show ?thesis using assms by (simp split: if_splits)
next
  case KeySpace
  then show ?thesis using assms by (simp split: if_splits)
next
  case KeyUp
  then show ?thesis using assms by (auto split: if_splits)
next
  case KeyDown
  then show ?thesis using assms by (auto split: if_splits)
next
  case KeyLeft
  then show ?thesis using assms by (auto split: if_splits)
next
  case KeyRight
  then show ?thesis using assms by (auto split: if_splits)
next
  case KeyOther
  then show ?thesis using assms by (simp split: if_splits)
qed

lemma handle_key_inv:
  assumes "game_inv g" "handle_key g k = Inr g'"
  shows "game_inv g'"
proof -
  from handle_key_cases [OF assms(2)]
  consider "g' = g" | "reset_game g = Inr g'" | "next_level g = Inr g'"
    | dy dx where "set_intent g dy dx = Inr g'"
    by blast
  then show ?thesis
  proof cases
    case 1
    then show ?thesis using assms(1) by simp
  next
    case 2
    then show ?thesis by (rule reset_game_inv [OF assms(1)])
  next
    case 3
    then show ?thesis by (rule next_level_inv [OF assms(1)])
  next
    case 4
    then show ?thesis by (rule set_intent_inv [OF assms(1)])
  qed
qed

lemma reachable_inv: "reachable g \<Longrightarrow> game_inv g"
proof (induction rule: reachable.induct)
  case (init src)
  show ?case by (rule init_game_inv)
next
  case (key g k g')
  show ?case by (rule handle_key_inv [OF key.IH key.hyps(2)])
next
  case (tick g t rnd g')
  show ?case by (rule update_game_inv [OF tick.IH tick.hyps(4)])
qed

end
